theory Spec2Isabelle
  imports Main "HOL-Library.Sublist"
begin

section \<open>External objects and their calls\<close>

text \<open>
  The call component (\<open>WebRTCCall\<close>), the invitation module (\<open>sendCallInvite\<close>,
  \<open>sendCallCancelled\<close>) and the incoming-call hook (\<open>useIncomingCalls\<close>) drive objects
  that live outside the repository: the browser's \<open>RTCPeerConnection\<close>,
  \<open>MediaStreamTrack\<close> and the realtime channel. The model keeps the state the source
  itself holds (React state, refs, module variables) and records every call the source
  makes on an external object in a log, in program order, together with whether the
  call returned or threw. What an external object does inside is not modelled; whether a
  call throws, and what \<open>createOffer\<close>/\<open>createAnswer\<close> produce, is a parameter
  (\<open>browser\<close>) that may depend on everything logged so far.

  An \<open>await\<close> on a call is modelled as the call returning or throwing at once; a handler
  runs to its end before the next event is delivered. The one long suspension of the
  source, \<open>getUserMedia\<close>, is split into the call and a later event carrying its result.
\<close>

type_synonym user_id = string

datatype outcome = Returned | Thrown

datatype track_kind = Audio | Video

record track =
  kind :: track_kind
  enabled :: bool

record media_stream =
  stream_id :: nat
  tracks :: "track list"

datatype call_type = voice | video

datatype desc = SdpOffer string | SdpAnswer string

datatype pc_call =
    AddTrack nat nat
  | SetRemoteDescription desc
  | CreateAnswer
  | CreateOffer
  | SetLocalDescription desc
  | AddIceCandidate string
  | Close

text \<open>
  Broadcast payloads of the per-call channel: \<open>Offer from to offer\<close>,
  \<open>Answer from to answer\<close>, \<open>IceCandidate from to candidate\<close> and
  \<open>CallEnded from chatRoomId\<close>.
\<close>

datatype signal =
    Offer user_id user_id string
  | Answer user_id user_id string
  | IceCandidate user_id user_id string
  | CallEnded user_id string

datatype effect =
    GetUserMedia bool
  | NewPeerConnection nat
  | PcCall nat pc_call
  | StopTrack nat nat
  | ChannelSubscribe string
  | ChannelSend string signal
  | ChannelUnsubscribe string
  | OnEndCall
  | Toast
  | ConsoleError

type_synonym log = "(effect \<times> outcome) list"

record browser =
  throws :: "log \<Rightarrow> effect \<Rightarrow> bool"
  created_sdp :: "log \<Rightarrow> string"

section \<open>The call component\<close>

text \<open>
  The props and the local user's id (\<open>user?.id\<close>; the mount effect runs only with a
  user). Left out of the model: the JSX, the video element refs (\<open>localVideoRef\<close>,
  \<open>remoteVideosRef\<close>) and the \<open>iceServers\<close> configuration, which no call state depends
  on.
\<close>

record props =
  chatRoomId :: string
  isIncoming :: bool
  callType :: call_type
  participants :: "user_id list"
  userId :: user_id

text \<open>
  \<open>peerConnectionsRef\<close> and \<open>remoteStreams\<close> are JavaScript \<open>Map\<close>s: association lists
  in insertion order. \<open>effect_localStream\<close> is the value of \<open>localStream\<close> that the
  closure of the mount effect (and so its \<open>cleanup\<close>) captured. \<open>next_pc\<close> numbers the
  \<open>RTCPeerConnection\<close> objects as they are constructed. A JavaScript \<open>Map\<close> keeps the
  slots of the entries that \<open>clear()\<close> emptied, for the iterators created before:
  \<open>cleared\<close> counts the slots of \<open>peerConnectionsRef\<close> emptied so far, and the entry at
  position \<open>j\<close> of the list is in slot \<open>cleared + j\<close>.
\<close>

record call_state =
  isConnected :: bool
  isMuted :: bool
  isVideoOff :: bool
  localStream :: "media_stream option"
  remoteStreams :: "(user_id \<times> nat) list"
  peerConnectionsRef :: "(user_id \<times> nat) list"
  channelRef :: "string option"
  effect_localStream :: "media_stream option"
  next_pc :: nat
  effects :: log
  cleared :: nat

definition initial_state :: "props \<Rightarrow> call_state" where
  "initial_state p =
     \<lparr>isConnected = False, isMuted = False, isVideoOff = (callType p = voice),
      localStream = None, remoteStreams = [], peerConnectionsRef = [],
      channelRef = None, effect_localStream = None, next_pc = 0, effects = [],
      cleared = 0\<rparr>"

text \<open>\<open>Map.prototype.set\<close>: replace the value of a present key in place, else append.\<close>

fun map_set :: "'k \<Rightarrow> 'v \<Rightarrow> ('k \<times> 'v) list \<Rightarrow> ('k \<times> 'v) list" where
  "map_set k v [] = [(k, v)]"
| "map_set k v ((k', v') # m) = (if k' = k then (k, v) # m else (k', v') # map_set k v m)"

text \<open>A call on an external object: logged with its outcome.\<close>

definition call_api :: "browser \<Rightarrow> effect \<Rightarrow> call_state \<Rightarrow> outcome \<times> call_state" where
  "call_api b e st =
     (let r = (if throws b (effects st) e then Thrown else Returned)
      in (r, st\<lparr>effects := effects st @ [(e, r)]\<rparr>))"

text \<open>\<open>console.error\<close>, \<open>toast\<close> and the parent's \<open>onEndCall\<close> callback do not throw.\<close>

definition log_note :: "effect \<Rightarrow> call_state \<Rightarrow> call_state" where
  "log_note e st = st\<lparr>effects := effects st @ [(e, Returned)]\<rparr>"

text \<open>Sequencing: a throw skips the rest of the enclosing function.\<close>

definition then_do ::
  "outcome \<times> call_state \<Rightarrow> (call_state \<Rightarrow> outcome \<times> call_state) \<Rightarrow> outcome \<times> call_state" where
  "then_do r f = (case r of (Returned, st) \<Rightarrow> f st | (Thrown, st) \<Rightarrow> (Thrown, st))"

text \<open>\<open>channelRef.current?.send({type: 'broadcast', event, payload})\<close>.\<close>

definition channel_send :: "browser \<Rightarrow> signal \<Rightarrow> call_state \<Rightarrow> outcome \<times> call_state" where
  "channel_send b s st =
     (case channelRef st of
        None \<Rightarrow> (Returned, st)
      | Some ch \<Rightarrow> call_api b (ChannelSend ch s) st)"

subsection \<open>createPeerConnection and initializeCall\<close>

text \<open>
  \<open>xs.forEach(x => call(x))\<close> over external calls: the calls are made in order, and the
  first one that throws ends the loop (and the enclosing function).
\<close>

fun call_each :: "browser \<Rightarrow> effect list \<Rightarrow> call_state \<Rightarrow> outcome \<times> call_state" where
  "call_each b [] st = (Returned, st)"
| "call_each b (e # es) st = then_do (call_api b e st) (call_each b es)"

text \<open>\<open>stream.getTracks().forEach(track => peerConnection.addTrack(track, stream))\<close>.\<close>

definition addTracks :: "browser \<Rightarrow> nat \<Rightarrow> media_stream \<Rightarrow> call_state \<Rightarrow> outcome \<times> call_state" where
  "addTracks b pc stream =
     call_each b (map (\<lambda>i. PcCall pc (AddTrack (stream_id stream) i)) [0..<length (tracks stream)])"

definition createPeerConnection ::
  "browser \<Rightarrow> user_id \<Rightarrow> media_stream \<Rightarrow> call_state \<Rightarrow> outcome \<times> call_state" where
  "createPeerConnection b participantId stream st =
     (let pc = next_pc st in
      then_do (call_api b (NewPeerConnection pc) (st\<lparr>next_pc := Suc pc\<rparr>)) (\<lambda>st.
      then_do (addTracks b pc stream st) (\<lambda>st.
      (Returned, st\<lparr>peerConnectionsRef := map_set participantId pc (peerConnectionsRef st)\<rparr>))))"

text \<open>
  \<open>participants.forEach(participantId => { if (participantId !== user?.id)
  createPeerConnection(participantId, stream) })\<close>.
\<close>

fun createPeerConnections ::
  "props \<Rightarrow> browser \<Rightarrow> media_stream \<Rightarrow> user_id list \<Rightarrow> call_state \<Rightarrow> outcome \<times> call_state" where
  "createPeerConnections p b stream [] st = (Returned, st)"
| "createPeerConnections p b stream (participantId # rest) st =
     (if participantId \<noteq> userId p
      then then_do (createPeerConnection b participantId stream st)
             (createPeerConnections p b stream rest)
      else createPeerConnections p b stream rest st)"

text \<open>The \<open>catch\<close> block of \<open>initializeCall\<close>.\<close>

definition initializeCall_catch :: "call_state \<Rightarrow> call_state" where
  "initializeCall_catch st = log_note OnEndCall (log_note Toast (log_note ConsoleError st))"

text \<open>\<open>initializeCall\<close> up to the \<open>await\<close> of \<open>getUserMedia\<close>.\<close>

definition initializeCall_start :: "props \<Rightarrow> browser \<Rightarrow> call_state \<Rightarrow> call_state" where
  "initializeCall_start p b st =
     (case call_api b (GetUserMedia (callType p = video)) st of
        (Returned, st') \<Rightarrow> st'
      | (Thrown, st') \<Rightarrow> initializeCall_catch st')"

text \<open>
  \<open>initializeCall\<close> after the \<open>await\<close>: \<open>Some stream\<close> when \<open>getUserMedia\<close> resolved,
  \<open>None\<close> when it rejected.
\<close>

definition initializeCall_resume ::
  "props \<Rightarrow> browser \<Rightarrow> media_stream option \<Rightarrow> call_state \<Rightarrow> call_state" where
  "initializeCall_resume p b res st =
     (case res of
        None \<Rightarrow> initializeCall_catch st
      | Some stream \<Rightarrow>
          (case createPeerConnections p b stream (participants p)
                  (st\<lparr>localStream := Some stream\<rparr>) of
             (Returned, st') \<Rightarrow> st'\<lparr>isConnected := True\<rparr>
           | (Thrown, st') \<Rightarrow> initializeCall_catch st'))"

subsection \<open>setupSignaling and the message handlers\<close>

definition channel_name :: "props \<Rightarrow> string" where
  "channel_name p = ''call-'' @ chatRoomId p"

text \<open>
  \<open>supabase.channel(`call-${chatRoomId}`).on(...).subscribe()\<close>, then
  \<open>channelRef.current = channel\<close>. A throw leaves \<open>channelRef\<close> as it was.
\<close>

definition setupSignaling :: "props \<Rightarrow> browser \<Rightarrow> call_state \<Rightarrow> outcome \<times> call_state" where
  "setupSignaling p b st =
     then_do (call_api b (ChannelSubscribe (channel_name p)) st) (\<lambda>st.
       (Returned, st\<lparr>channelRef := Some (channel_name p)\<rparr>))"

text \<open>
  The handlers are \<open>async\<close> functions started from a channel callback: a rejected
  \<open>await\<close> ends the handler, and nobody observes the rejection. They return the state.
\<close>

definition handleOffer :: "props \<Rightarrow> browser \<Rightarrow> user_id \<Rightarrow> string \<Rightarrow> call_state \<Rightarrow> call_state" where
  "handleOffer p b from_id offer st =
     (case map_of (peerConnectionsRef st) from_id of
        None \<Rightarrow> st
      | Some pc \<Rightarrow>
          snd (then_do (call_api b (PcCall pc (SetRemoteDescription (SdpOffer offer))) st) (\<lambda>st.
               then_do (call_api b (PcCall pc CreateAnswer) st) (\<lambda>st'.
               then_do (call_api b (PcCall pc (SetLocalDescription
                          (SdpAnswer (created_sdp b (effects st))))) st') (\<lambda>st'.
               channel_send b (Answer (userId p) from_id (created_sdp b (effects st))) st')))))"

definition handleAnswer :: "browser \<Rightarrow> user_id \<Rightarrow> string \<Rightarrow> call_state \<Rightarrow> call_state" where
  "handleAnswer b from_id answer st =
     (case map_of (peerConnectionsRef st) from_id of
        None \<Rightarrow> st
      | Some pc \<Rightarrow> snd (call_api b (PcCall pc (SetRemoteDescription (SdpAnswer answer))) st))"

definition handleIceCandidate :: "browser \<Rightarrow> user_id \<Rightarrow> string \<Rightarrow> call_state \<Rightarrow> call_state" where
  "handleIceCandidate b from_id candidate st =
     (case map_of (peerConnectionsRef st) from_id of
        None \<Rightarrow> st
      | Some pc \<Rightarrow> snd (call_api b (PcCall pc (AddIceCandidate candidate)) st))"

text \<open>The four \<open>.on('broadcast', {event}, ...)\<close> callbacks registered by \<open>setupSignaling\<close>.\<close>

fun on_broadcast :: "props \<Rightarrow> browser \<Rightarrow> signal \<Rightarrow> call_state \<Rightarrow> call_state" where
  "on_broadcast p b (Offer from_id to_id offer) st =
     (if to_id = userId p then handleOffer p b from_id offer st else st)"
| "on_broadcast p b (Answer from_id to_id answer) st =
     (if to_id = userId p then handleAnswer b from_id answer st else st)"
| "on_broadcast p b (IceCandidate from_id to_id candidate) st =
     (if to_id = userId p then handleIceCandidate b from_id candidate st else st)"
| "on_broadcast p b (CallEnded from_id room) st =
     (if room = chatRoomId p then log_note OnEndCall st else st)"

text \<open>
  The callbacks \<open>createPeerConnection\<close> installs on a connection made for
  \<open>participantId\<close>: \<open>ontrack\<close> with the first remote stream of the event, and
  \<open>onicecandidate\<close> with the event's candidate (\<open>None\<close> for the final null candidate).
\<close>

definition ontrack :: "user_id \<Rightarrow> nat \<Rightarrow> call_state \<Rightarrow> call_state" where
  "ontrack participantId remoteStream st =
     st\<lparr>remoteStreams := map_set participantId remoteStream (remoteStreams st)\<rparr>"

definition onicecandidate ::
  "props \<Rightarrow> browser \<Rightarrow> user_id \<Rightarrow> string option \<Rightarrow> call_state \<Rightarrow> call_state" where
  "onicecandidate p b participantId candidate st =
     (case candidate of
        None \<Rightarrow> st
      | Some c \<Rightarrow> snd (channel_send b (IceCandidate (userId p) participantId c) st))"

subsection \<open>startCall\<close>

text \<open>\<open>for (const [participantId, peerConnection] of peerConnectionsRef.current)\<close>.\<close>

fun startCall_loop ::
  "props \<Rightarrow> browser \<Rightarrow> (user_id \<times> nat) list \<Rightarrow> call_state \<Rightarrow> outcome \<times> call_state" where
  "startCall_loop p b [] st = (Returned, st)"
| "startCall_loop p b ((participantId, pc) # rest) st =
     then_do (call_api b (PcCall pc CreateOffer) st) (\<lambda>st'.
     then_do (call_api b (PcCall pc (SetLocalDescription
                (SdpOffer (created_sdp b (effects st))))) st') (\<lambda>st'.
     then_do (channel_send b (Offer (userId p) participantId (created_sdp b (effects st))) st')
       (startCall_loop p b rest)))"

definition startCall :: "props \<Rightarrow> browser \<Rightarrow> call_state \<Rightarrow> call_state" where
  "startCall p b st = snd (startCall_loop p b (peerConnectionsRef st) st)"

subsection \<open>toggleMute and toggleVideo\<close>

text \<open>
  \<open>localStream.getAudioTracks()[0]\<close> is the first track of the stream of kind audio,
  \<open>undefined\<close> when there is none: its position among the stream's tracks.
\<close>

fun first_track :: "track_kind \<Rightarrow> track list \<Rightarrow> nat option" where
  "first_track k [] = None"
| "first_track k (t # ts) =
     (if kind t = k then Some 0 else map_option Suc (first_track k ts))"

definition flip_enabled :: "nat \<Rightarrow> media_stream \<Rightarrow> media_stream" where
  "flip_enabled i s =
     s\<lparr>tracks := (tracks s)[i := (tracks s ! i)\<lparr>enabled := \<not> enabled (tracks s ! i)\<rparr>]\<rparr>"

definition toggleMute :: "call_state \<Rightarrow> call_state" where
  "toggleMute st =
     (case localStream st of
        None \<Rightarrow> st
      | Some s \<Rightarrow>
          (case first_track Audio (tracks s) of
             None \<Rightarrow> st
           | Some i \<Rightarrow>
               (let s' = flip_enabled i s
                in st\<lparr>localStream := Some s', isMuted := \<not> enabled (tracks s' ! i)\<rparr>)))"

definition toggleVideo :: "call_state \<Rightarrow> call_state" where
  "toggleVideo st =
     (case localStream st of
        None \<Rightarrow> st
      | Some s \<Rightarrow>
          (case first_track Video (tracks s) of
             None \<Rightarrow> st
           | Some i \<Rightarrow>
               (let s' = flip_enabled i s
                in st\<lparr>localStream := Some s', isVideoOff := \<not> enabled (tracks s' ! i)\<rparr>)))"

subsection \<open>endCall and cleanup\<close>

text \<open>\<open>localStream?.getTracks().forEach(track => track.stop())\<close>.\<close>

definition stop_calls :: "media_stream option \<Rightarrow> effect list" where
  "stop_calls ls =
     (case ls of
        None \<Rightarrow> []
      | Some s \<Rightarrow> map (StopTrack (stream_id s)) [0..<length (tracks s)])"

text \<open>\<open>peerConnectionsRef.current.forEach(pc => pc.close())\<close>.\<close>

definition close_calls :: "(user_id \<times> nat) list \<Rightarrow> effect list" where
  "close_calls m = map (\<lambda>(participantId, pc). PcCall pc Close) m"

text \<open>\<open>channelRef.current?.unsubscribe()\<close>.\<close>

definition unsubscribe_calls :: "string option \<Rightarrow> effect list" where
  "unsubscribe_calls c = (case c of None \<Rightarrow> [] | Some ch \<Rightarrow> [ChannelUnsubscribe ch])"

text \<open>
  \<open>cleanup\<close> reads \<open>localStream\<close> from the closure it was created in: the current render's
  value when \<open>endCall\<close> calls it, the captured one when it runs as the effect's teardown.
\<close>

definition cleanup :: "browser \<Rightarrow> media_stream option \<Rightarrow> call_state \<Rightarrow> outcome \<times> call_state" where
  "cleanup b ls st =
     then_do (call_each b (stop_calls ls) st) (\<lambda>st.
     then_do (call_each b (close_calls (peerConnectionsRef st)) st) (\<lambda>st.
     then_do (call_each b (unsubscribe_calls (channelRef st))
                (st\<lparr>peerConnectionsRef := [],
                    cleared := cleared st + length (peerConnectionsRef st)\<rparr>)) (\<lambda>st.
     (Returned, st\<lparr>localStream := None, remoteStreams := []\<rparr>))))"

definition endCall :: "props \<Rightarrow> browser \<Rightarrow> call_state \<Rightarrow> outcome \<times> call_state" where
  "endCall p b st =
     then_do (channel_send b (CallEnded (userId p) (chatRoomId p)) st) (\<lambda>st.
     then_do (cleanup b (localStream st) st) (\<lambda>st.
     (Returned, log_note OnEndCall st)))"

subsection \<open>Events of the component\<close>

text \<open>
  What can happen to a mounted component: React runs or tears down the mount effect
  (dependencies \<open>[user, chatRoomId]\<close>), \<open>getUserMedia\<close> settles, a broadcast arrives, a
  connection fires \<open>ontrack\<close> or \<open>onicecandidate\<close>, the user presses a button.
\<close>

datatype event =
    Mount
  | MediaResolved media_stream
  | MediaRejected
  | DepsChanged
  | Unmount
  | Broadcast signal
  | OnTrack user_id nat
  | OnIceCandidate user_id "string option"
  | ToggleMute
  | ToggleVideo
  | EndCall

text \<open>
  The body of the mount effect, \<open>initializeCall(); setupSignaling(); return () => cleanup()\<close>,
  run in a render whose \<open>localStream\<close> is \<open>captured\<close>.
\<close>

definition mount_effect ::
  "props \<Rightarrow> browser \<Rightarrow> media_stream option \<Rightarrow> call_state \<Rightarrow> call_state" where
  "mount_effect p b captured st =
     snd (setupSignaling p b (initializeCall_start p b (st\<lparr>effect_localStream := captured\<rparr>)))"

text \<open>
  The second effect, \<open>if (!isIncoming && isConnected) startCall()\<close> with dependencies
  \<open>[isConnected, isIncoming]\<close>, runs again when \<open>isConnected\<close> has changed.
\<close>

definition connected_effect :: "props \<Rightarrow> browser \<Rightarrow> bool \<Rightarrow> call_state \<Rightarrow> call_state" where
  "connected_effect p b was_connected st =
     (if isConnected st \<noteq> was_connected \<and> \<not> isIncoming p \<and> isConnected st
      then startCall p b st else st)"

fun step :: "props \<Rightarrow> browser \<Rightarrow> event \<Rightarrow> call_state \<Rightarrow> call_state" where
  "step p b Mount st = mount_effect p b (localStream st) st"
| "step p b (MediaResolved stream) st =
     connected_effect p b (isConnected st) (initializeCall_resume p b (Some stream) st)"
| "step p b MediaRejected st = initializeCall_resume p b None st"
| "step p b DepsChanged st =
     (case cleanup b (effect_localStream st) st of
        (Returned, st') \<Rightarrow> mount_effect p b (localStream st) st'
      | (Thrown, st') \<Rightarrow> st')"
| "step p b Unmount st = snd (cleanup b (effect_localStream st) st)"
| "step p b (Broadcast s) st = on_broadcast p b s st"
| "step p b (OnTrack participantId remoteStream) st = ontrack participantId remoteStream st"
| "step p b (OnIceCandidate participantId candidate) st =
     onicecandidate p b participantId candidate st"
| "step p b ToggleMute st = toggleMute st"
| "step p b ToggleVideo st = toggleVideo st"
| "step p b EndCall st = snd (endCall p b st)"

fun run :: "props \<Rightarrow> browser \<Rightarrow> event list \<Rightarrow> call_state \<Rightarrow> call_state" where
  "run p b [] st = st"
| "run p b (e # es) st = run p b es (step p b e st)"

text \<open>
  \<open>step\<close> and \<open>run\<close> describe a component that stays mounted, whose effect body does
  not throw, and in which every \<open>await\<close> of a handler resumes before the next event: one
  of the schedules of the component, used for concrete scenarios. The next subsection
  describes all of them, with the handlers suspended at their \<open>await\<close>s and the component
  mounted and unmounted.
\<close>

subsection \<open>Suspended handlers and the life of the component\<close>

text \<open>
  \<open>handleOffer\<close> and \<open>startCall\<close> are \<open>async\<close> functions with several \<open>await\<close>s: each
  runs to its first \<open>await\<close> when it is started, and each later piece runs when the awaited
  promise has settled, while other events may be handled in between. A started handler is
  a task, suspended at one of the \<open>await\<close>s of the source, holding its local variables:
  \<^item> \<open>Offer_applied from pc\<close>: \<open>handleOffer\<close> at \<open>await peerConnection.setRemoteDescription(...)\<close>;
  \<^item> \<open>Offer_answered from pc answer\<close>: at \<open>await peerConnection.createAnswer()\<close>;
  \<^item> \<open>Offer_set from pc answer\<close>: at \<open>await peerConnection.setLocalDescription(answer)\<close>;
  \<^item> \<open>Start_offered i participantId pc offer\<close>: \<open>startCall\<close> at
    \<open>await peerConnection.createOffer()\<close>, with \<open>i\<close> the slot its \<open>Map\<close> iterator visits next;
  \<^item> \<open>Start_set i participantId pc offer\<close>: at \<open>await peerConnection.setLocalDescription(offer)\<close>;
  \<^item> \<open>Done\<close>: the handler has ended (it returned, or an awaited call threw).
  \<open>handleAnswer\<close> and \<open>handleIceCandidate\<close> do nothing after their one \<open>await\<close>, and
  \<open>endCall\<close> and \<open>cleanup\<close> have none.
\<close>

datatype task =
    Offer_applied user_id nat
  | Offer_answered user_id nat string
  | Offer_set user_id nat string
  | Start_offered nat user_id nat string
  | Start_set nat user_id nat string
  | Done

text \<open>\<open>handleOffer\<close> up to its first \<open>await\<close>.\<close>

definition handleOffer_begin ::
  "browser \<Rightarrow> user_id \<Rightarrow> string \<Rightarrow> call_state \<Rightarrow> task \<times> call_state" where
  "handleOffer_begin b from_id offer st =
     (case map_of (peerConnectionsRef st) from_id of
        None \<Rightarrow> (Done, st)
      | Some pc \<Rightarrow>
          (case call_api b (PcCall pc (SetRemoteDescription (SdpOffer offer))) st of
             (Thrown, st') \<Rightarrow> (Done, st')
           | (Returned, st') \<Rightarrow> (Offer_applied from_id pc, st')))"

text \<open>
  The next turn of the loop of \<open>startCall\<close>, for an iterator that visits slot \<open>i\<close> next: it
  skips the slots emptied by \<open>clear()\<close>, and for the entry it finds runs the loop body up
  to \<open>await peerConnection.createOffer()\<close>.
\<close>

definition startCall_next :: "browser \<Rightarrow> nat \<Rightarrow> call_state \<Rightarrow> task \<times> call_state" where
  "startCall_next b i st =
     (let j = max i (cleared st) - cleared st in
      if j < length (peerConnectionsRef st)
      then (case peerConnectionsRef st ! j of
              (participantId, pc) \<Rightarrow>
                (case call_api b (PcCall pc CreateOffer) st of
                   (Thrown, st') \<Rightarrow> (Done, st')
                 | (Returned, st') \<Rightarrow>
                     (Start_offered (cleared st + j + 1) participantId pc
                        (created_sdp b (effects st)), st')))
      else (Done, st))"

text \<open>A suspended handler goes on, to its next \<open>await\<close> or to its end.\<close>

fun resume_task :: "props \<Rightarrow> browser \<Rightarrow> task \<Rightarrow> call_state \<Rightarrow> task \<times> call_state" where
  "resume_task p b (Offer_applied from_id pc) st =
     (case call_api b (PcCall pc CreateAnswer) st of
        (Thrown, st') \<Rightarrow> (Done, st')
      | (Returned, st') \<Rightarrow> (Offer_answered from_id pc (created_sdp b (effects st)), st'))"
| "resume_task p b (Offer_answered from_id pc answer) st =
     (case call_api b (PcCall pc (SetLocalDescription (SdpAnswer answer))) st of
        (Thrown, st') \<Rightarrow> (Done, st')
      | (Returned, st') \<Rightarrow> (Offer_set from_id pc answer, st'))"
| "resume_task p b (Offer_set from_id pc answer) st =
     (Done, snd (channel_send b (Answer (userId p) from_id answer) st))"
| "resume_task p b (Start_offered i participantId pc offer) st =
     (case call_api b (PcCall pc (SetLocalDescription (SdpOffer offer))) st of
        (Thrown, st') \<Rightarrow> (Done, st')
      | (Returned, st') \<Rightarrow> (Start_set i participantId pc offer, st'))"
| "resume_task p b (Start_set i participantId pc offer) st =
     (case channel_send b (Offer (userId p) participantId offer) st of
        (Thrown, st') \<Rightarrow> (Done, st')
      | (Returned, st') \<Rightarrow> startCall_next b i st')"
| "resume_task p b Done st = (Done, st)"

text \<open>
  The component with its handlers in flight. It is \<open>Fresh\<close> before the mount effect has
  run, \<open>Live\<close> while mounted, and \<open>Gone\<close> once unmounted. React drops the state updates of
  a component that is not mounted (\<open>keep_react_state\<close>: the \<open>useState\<close> values stay, what
  was done to refs and external objects stays done), runs no effect for it and shows no
  buttons; callbacks and suspended handlers still run. An error thrown by an effect or
  by its cleanup unmounts the tree, and the cleanup of an effect that is in place then
  runs.
\<close>

datatype lifecycle = Fresh | Live | Gone

record component =
  core :: call_state
  lifecycle :: lifecycle
  tasks :: "task list"

definition initial_component :: "props \<Rightarrow> component" where
  "initial_component p = \<lparr>core = initial_state p, lifecycle = Fresh, tasks = []\<rparr>"

definition keep_react_state :: "call_state \<Rightarrow> call_state \<Rightarrow> call_state" where
  "keep_react_state old new =
     new\<lparr>isConnected := isConnected old, isMuted := isMuted old, isVideoOff := isVideoOff old,
         localStream := localStream old, remoteStreams := remoteStreams old\<rparr>"

definition settle :: "lifecycle \<Rightarrow> call_state \<Rightarrow> call_state \<Rightarrow> call_state" where
  "settle lc old new = (if lc = Live then new else keep_react_state old new)"

text \<open>The body of the mount effect with its outcome (\<open>mount_effect\<close> is its state).\<close>

definition run_effect ::
  "props \<Rightarrow> browser \<Rightarrow> media_stream option \<Rightarrow> call_state \<Rightarrow> outcome \<times> call_state" where
  "run_effect p b captured st =
     setupSignaling p b (initializeCall_start p b (st\<lparr>effect_localStream := captured\<rparr>))"

datatype action = Ev event | Resume nat

fun act :: "props \<Rightarrow> browser \<Rightarrow> action \<Rightarrow> component \<Rightarrow> component" where
  "act p b (Ev Mount) s =
     (if lifecycle s = Fresh
      then (case run_effect p b (localStream (core s)) (core s) of
              (Returned, c) \<Rightarrow> s\<lparr>core := c, lifecycle := Live\<rparr>
            | (Thrown, c) \<Rightarrow> s\<lparr>core := c, lifecycle := Gone\<rparr>)
      else s)"
| "act p b (Ev (MediaResolved stream)) s =
     (if lifecycle s = Fresh then s
      else (let c = settle (lifecycle s) (core s)
                      (initializeCall_resume p b (Some stream) (core s))
            in if lifecycle s = Live \<and> isConnected c \<noteq> isConnected (core s) \<and>
                  \<not> isIncoming p \<and> isConnected c
               then (case startCall_next b 0 c of
                       (t, c') \<Rightarrow> s\<lparr>core := c', tasks := tasks s @ [t]\<rparr>)
               else s\<lparr>core := c\<rparr>))"
| "act p b (Ev MediaRejected) s =
     (if lifecycle s = Fresh then s
      else s\<lparr>core := settle (lifecycle s) (core s) (initializeCall_resume p b None (core s))\<rparr>)"
| "act p b (Ev DepsChanged) s =
     (if lifecycle s = Live
      then (case cleanup b (effect_localStream (core s)) (core s) of
              (r1, c1) \<Rightarrow>
                (case run_effect p b (localStream (core s)) c1 of
                   (Thrown, c2) \<Rightarrow> s\<lparr>core := c2, lifecycle := Gone\<rparr>
                 | (Returned, c2) \<Rightarrow>
                     (if r1 = Returned then s\<lparr>core := c2\<rparr>
                      else s\<lparr>core := keep_react_state c2
                                       (snd (cleanup b (effect_localStream c2) c2)),
                             lifecycle := Gone\<rparr>)))
      else s)"
| "act p b (Ev Unmount) s =
     (if lifecycle s = Live
      then s\<lparr>core := keep_react_state (core s)
                        (snd (cleanup b (effect_localStream (core s)) (core s))),
             lifecycle := Gone\<rparr>
      else s)"
| "act p b (Ev (Broadcast (Offer from_id to_id offer))) s =
     (if lifecycle s = Fresh \<or> to_id \<noteq> userId p then s
      else (case handleOffer_begin b from_id offer (core s) of
              (t, c) \<Rightarrow> s\<lparr>core := c, tasks := tasks s @ [t]\<rparr>))"
| "act p b (Ev (Broadcast sig)) s =
     (if lifecycle s = Fresh then s else s\<lparr>core := on_broadcast p b sig (core s)\<rparr>)"
| "act p b (Ev (OnTrack participantId remoteStream)) s =
     (if lifecycle s = Fresh then s
      else s\<lparr>core := settle (lifecycle s) (core s) (ontrack participantId remoteStream (core s))\<rparr>)"
| "act p b (Ev (OnIceCandidate participantId candidate)) s =
     (if lifecycle s = Fresh then s
      else s\<lparr>core := onicecandidate p b participantId candidate (core s)\<rparr>)"
| "act p b (Ev ToggleMute) s =
     (if lifecycle s = Live then s\<lparr>core := toggleMute (core s)\<rparr> else s)"
| "act p b (Ev ToggleVideo) s =
     (if lifecycle s = Live then s\<lparr>core := toggleVideo (core s)\<rparr> else s)"
| "act p b (Ev EndCall) s =
     (if lifecycle s = Live then s\<lparr>core := snd (endCall p b (core s))\<rparr> else s)"
| "act p b (Resume i) s =
     (if i < length (tasks s)
      then (case resume_task p b (tasks s ! i) (core s) of
              (t, c) \<Rightarrow> s\<lparr>core := c, tasks := (tasks s)[i := t]\<rparr>)
      else s)"

fun sched :: "props \<Rightarrow> browser \<Rightarrow> action list \<Rightarrow> component \<Rightarrow> component" where
  "sched p b [] s = s"
| "sched p b (a # as) s = sched p b as (act p b a s)"

text \<open>A suspended handler goes on \<open>n\<close> times with nothing else in between.\<close>

fun carry_on :: "props \<Rightarrow> browser \<Rightarrow> nat \<Rightarrow> task \<times> call_state \<Rightarrow> task \<times> call_state" where
  "carry_on p b 0 x = x"
| "carry_on p b (Suc n) x = carry_on p b n (resume_task p b (fst x) (snd x))"

section \<open>The incoming-call hook and the page that uses it\<close>

text \<open>
  A received \<open>incoming-call\<close> payload is untyped in the source; \<open>participants\<close> may be
  missing (\<open>payload.participants || []\<close>).
\<close>

record incoming_payload =
  ip_chatRoomId :: string
  ip_callType :: call_type
  ip_from :: user_id
  ip_to :: user_id
  ip_participants :: "user_id list option"

record cancelled_payload =
  cp_chatRoomId :: string
  cp_from :: user_id
  cp_to :: user_id

record IncomingCall =
  ic_chatRoomId :: string
  ic_callType :: call_type
  ic_from :: user_id
  ic_to :: user_id
  ic_participants :: "user_id list"

record active_call =
  ac_chatRoomId :: string
  ac_callType :: call_type
  ac_participants :: "user_id list"

text \<open>
  \<open>incomingCall\<close> is the hook's React state. The two broadcast callbacks are created
  inside \<open>useEffect(..., [user])\<close>; \<open>seen_incomingCall\<close> is the value of \<open>incomingCall\<close>
  in the render whose effect created them, which is what they read.
\<close>

record page_state =
  incomingCall :: "IncomingCall option"
  seen_incomingCall :: "IncomingCall option"
  activeCall :: "active_call option"

definition initial_page :: page_state where
  "initial_page = \<lparr>incomingCall = None, seen_incomingCall = None, activeCall = None\<rparr>"

text \<open>The effect of \<open>useIncomingCalls\<close> runs (first render with a user, or \<open>user\<close> changed).\<close>

definition useIncomingCalls_effect :: "page_state \<Rightarrow> page_state" where
  "useIncomingCalls_effect s = s\<lparr>seen_incomingCall := incomingCall s\<rparr>"

definition on_incoming_call :: "user_id \<Rightarrow> incoming_payload \<Rightarrow> page_state \<Rightarrow> page_state" where
  "on_incoming_call uid payload s =
     (if ip_to payload = uid
      then s\<lparr>incomingCall := Some
             \<lparr>ic_chatRoomId = ip_chatRoomId payload, ic_callType = ip_callType payload,
              ic_from = ip_from payload, ic_to = ip_to payload,
              ic_participants = (case ip_participants payload of None \<Rightarrow> [] | Some ps \<Rightarrow> ps)\<rparr>\<rparr>
      else s)"

text \<open>
  \<open>payload.to === user.id && incomingCall?.chatRoomId === payload.chatRoomId\<close>: with no
  call seen, \<open>incomingCall?.chatRoomId\<close> is \<open>undefined\<close> and equals no string.
\<close>

definition on_call_cancelled :: "user_id \<Rightarrow> cancelled_payload \<Rightarrow> page_state \<Rightarrow> page_state" where
  "on_call_cancelled uid payload s =
     (if cp_to payload = uid \<and>
         map_option ic_chatRoomId (seen_incomingCall s) = Some (cp_chatRoomId payload)
      then s\<lparr>incomingCall := None\<rparr>
      else s)"

definition clearIncomingCall :: "page_state \<Rightarrow> page_state" where
  "clearIncomingCall s = s\<lparr>incomingCall := None\<rparr>"

definition acceptIncoming :: "page_state \<Rightarrow> page_state" where
  "acceptIncoming s =
     (case incomingCall s of
        None \<Rightarrow> s
      | Some ic \<Rightarrow>
          clearIncomingCall (s\<lparr>activeCall := Some
            \<lparr>ac_chatRoomId = ic_chatRoomId ic, ac_callType = ic_callType ic,
             ac_participants = ic_participants ic\<rparr>\<rparr>))"

definition declineIncoming :: "page_state \<Rightarrow> page_state" where
  "declineIncoming s = clearIncomingCall s"

text \<open>The overlay with the accept button is rendered when \<open>incomingCall && !activeCall\<close>.\<close>

definition accept_offered :: "page_state \<Rightarrow> bool" where
  "accept_offered s = (incomingCall s \<noteq> None \<and> activeCall s = None)"

section \<open>The invitation module\<close>

record CallInvitePayload =
  cip_chatRoomId :: string
  cip_callType :: call_type
  cip_from :: user_id
  cip_participants :: "user_id list"
  cip_timestamp :: "string option"

text \<open>
  Calls the module makes on the outside: channel creation (giving handle number \<open>n\<close>),
  \<open>subscribe\<close> and \<open>send\<close> on a handle, \<open>supabase.functions.invoke('send-push', ...)\<close>
  with \<open>user_ids\<close>, \<open>title\<close>, \<open>body\<close> and \<open>tag\<close>, and the two console calls.
  \<open>SendIncomingCall h payload to\<close> publishes \<open>{...payload, to}\<close> as \<open>incoming-call\<close>;
  \<open>SendCallCancelled h chatRoomId from to\<close> publishes \<open>call-cancelled\<close>.
\<close>

datatype inv_effect =
    CreateChannel string nat
  | Subscribe nat
  | SendIncomingCall nat CallInvitePayload user_id
  | SendCallCancelled nat string user_id user_id
  | InvokePush "user_id list" string string string
  | LogError
  | LogWarn

type_synonym inv_log = "(inv_effect \<times> outcome) list"

text \<open>
  The module variables \<open>invitesChannel\<close> and \<open>subscribed\<close>, the number of the next channel
  handle, and the log.
\<close>

record invites_module =
  invitesChannel :: "nat option"
  subscribed :: bool
  next_channel :: nat
  inv_effects :: inv_log

definition initial_module :: invites_module where
  "initial_module = \<lparr>invitesChannel = None, subscribed = False, next_channel = 0, inv_effects = []\<rparr>"

definition inv_call ::
  "(inv_log \<Rightarrow> inv_effect \<Rightarrow> bool) \<Rightarrow> inv_effect \<Rightarrow> invites_module \<Rightarrow> outcome \<times> invites_module" where
  "inv_call t e m =
     (let r = (if t (inv_effects m) e then Thrown else Returned)
      in (r, m\<lparr>inv_effects := inv_effects m @ [(e, r)]\<rparr>))"

definition inv_note :: "inv_effect \<Rightarrow> invites_module \<Rightarrow> invites_module" where
  "inv_note e m = m\<lparr>inv_effects := inv_effects m @ [(e, Returned)]\<rparr>"

text \<open>
  \<open>getInvitesChannel\<close> up to its \<open>await\<close>. It ends in one of three ways: the creation or
  \<open>subscribe()\<close> threw (\<open>Rejected\<close>); \<open>subscribed\<close> was already set and the handle is
  returned without an \<open>await\<close> (\<open>Ready\<close>); \<open>subscribe()\<close> was called and returned, and the
  function is suspended at \<open>await invitesChannel.subscribe()\<close> with \<open>subscribed\<close> still
  false (\<open>Subscribing\<close>).
\<close>

datatype channel_wait = Rejected | Ready nat | Subscribing nat

definition getInvitesChannel_begin ::
  "(inv_log \<Rightarrow> inv_effect \<Rightarrow> bool) \<Rightarrow> invites_module \<Rightarrow> channel_wait \<times> invites_module" where
  "getInvitesChannel_begin t m =
     (case (case invitesChannel m of
              Some ch \<Rightarrow> (Some ch, m)
            | None \<Rightarrow>
                (case inv_call t (CreateChannel ''call-invites'' (next_channel m)) m of
                   (Thrown, m') \<Rightarrow> (None, m')
                 | (Returned, m') \<Rightarrow>
                     (Some (next_channel m'),
                      m'\<lparr>invitesChannel := Some (next_channel m'),
                         next_channel := Suc (next_channel m')\<rparr>))) of
        (None, m1) \<Rightarrow> (Rejected, m1)
      | (Some ch, m1) \<Rightarrow>
          (if subscribed m1 then (Ready ch, m1)
           else (case inv_call t (Subscribe ch) m1 of
                   (Thrown, m2) \<Rightarrow> (Rejected, m2)
                 | (Returned, m2) \<Rightarrow> (Subscribing ch, m2))))"

text \<open>
  \<open>getInvitesChannel\<close> after its \<open>await\<close>: \<open>subscribed = true; return invitesChannel\<close>.
  The variable \<open>invitesChannel\<close> is assigned once and never reset, so what is returned is
  the handle \<open>ch\<close> the function held before the \<open>await\<close>.
\<close>

definition getInvitesChannel_resume :: "nat \<Rightarrow> invites_module \<Rightarrow> nat \<times> invites_module" where
  "getInvitesChannel_resume ch m = (ch, m\<lparr>subscribed := True\<rparr>)"

text \<open>
  \<open>getInvitesChannel\<close> when nothing else runs during its \<open>await\<close>: the handle, or \<open>None\<close>
  when it threw.
\<close>

definition getInvitesChannel ::
  "(inv_log \<Rightarrow> inv_effect \<Rightarrow> bool) \<Rightarrow> invites_module \<Rightarrow> nat option \<times> invites_module" where
  "getInvitesChannel t m =
     (case getInvitesChannel_begin t m of
        (Rejected, m1) \<Rightarrow> (None, m1)
      | (Ready ch, m1) \<Rightarrow> (Some ch, m1)
      | (Subscribing ch, m1) \<Rightarrow>
          (case getInvitesChannel_resume ch m1 of (ch', m2) \<Rightarrow> (Some ch', m2)))"

text \<open>
  \<open>sendCallInvite\<close> and \<open>sendCallCancelled\<close> when nothing else runs during their
  \<open>await\<close>s. \<open>for (const to of recipients) await channel.send(...)\<close>: the loops inside
  the \<open>try\<close>.
\<close>

fun send_invites ::
  "(inv_log \<Rightarrow> inv_effect \<Rightarrow> bool) \<Rightarrow> nat \<Rightarrow> CallInvitePayload \<Rightarrow> user_id list \<Rightarrow>
   invites_module \<Rightarrow> outcome \<times> invites_module" where
  "send_invites t ch payload [] m = (Returned, m)"
| "send_invites t ch payload (to_id # rest) m =
     (case inv_call t (SendIncomingCall ch payload to_id) m of
        (Thrown, m') \<Rightarrow> (Thrown, m')
      | (Returned, m') \<Rightarrow> send_invites t ch payload rest m')"

fun send_cancels ::
  "(inv_log \<Rightarrow> inv_effect \<Rightarrow> bool) \<Rightarrow> nat \<Rightarrow> string \<Rightarrow> user_id \<Rightarrow> user_id list \<Rightarrow>
   invites_module \<Rightarrow> outcome \<times> invites_module" where
  "send_cancels t ch room from_id [] m = (Returned, m)"
| "send_cancels t ch room from_id (to_id # rest) m =
     (case inv_call t (SendCallCancelled ch room from_id to_id) m of
        (Thrown, m') \<Rightarrow> (Thrown, m')
      | (Returned, m') \<Rightarrow> send_cancels t ch room from_id rest m')"

definition push_title :: "CallInvitePayload \<Rightarrow> string" where
  "push_title payload =
     (if cip_callType payload = video then ''Incoming video call'' else ''Incoming voice call'')"

definition sendCallInvite ::
  "(inv_log \<Rightarrow> inv_effect \<Rightarrow> bool) \<Rightarrow> user_id list \<Rightarrow> CallInvitePayload \<Rightarrow>
   invites_module \<Rightarrow> outcome \<times> invites_module" where
  "sendCallInvite t recipients payload m =
     (case getInvitesChannel t m of
        (None, m1) \<Rightarrow> (Thrown, m1)
      | (Some ch, m1) \<Rightarrow>
          (let m2 = (case send_invites t ch payload recipients m1 of
                       (Thrown, m') \<Rightarrow> inv_note LogError m'
                     | (Returned, m') \<Rightarrow> m');
               m3 = (case inv_call t (InvokePush recipients (push_title payload) ''Tap to answer''
                                        (''chat-'' @ cip_chatRoomId payload)) m2 of
                       (Thrown, m') \<Rightarrow> inv_note LogWarn m'
                     | (Returned, m') \<Rightarrow> m')
           in (Returned, m3)))"

definition sendCallCancelled ::
  "(inv_log \<Rightarrow> inv_effect \<Rightarrow> bool) \<Rightarrow> user_id list \<Rightarrow> string \<Rightarrow> user_id \<Rightarrow>
   invites_module \<Rightarrow> outcome \<times> invites_module" where
  "sendCallCancelled t recipients room from_id m =
     (case getInvitesChannel t m of
        (None, m1) \<Rightarrow> (Thrown, m1)
      | (Some ch, m1) \<Rightarrow>
          (case send_cancels t ch room from_id recipients m1 of
             (Thrown, m') \<Rightarrow> (Returned, inv_note LogError m')
           | (Returned, m') \<Rightarrow> (Returned, m')))"

subsection \<open>Calls that overlap\<close>

text \<open>
  \<open>sendCallInvite\<close> and \<open>sendCallCancelled\<close> are \<open>async\<close>: a call runs to its first \<open>await\<close>
  when it is made, and each later piece runs when the awaited promise has settled; pieces
  of other calls may run in between. A call made and not finished is a task, suspended at
  one of the \<open>await\<close>s of the source:
  \<^item> \<open>AwaitSubscribe\<close>: inside \<open>getInvitesChannel\<close>, at \<open>await invitesChannel.subscribe()\<close>;
  \<^item> \<open>AwaitChannel\<close>: at \<open>await getInvitesChannel()\<close>, which gave the handle or rejected
    (\<open>None\<close>);
  \<^item> \<open>AwaitSend\<close>: at \<open>await channel.send(...)\<close>, with the recipients still to come and
    how the \<open>send\<close> ended;
  \<^item> \<open>AwaitPush\<close>: at \<open>await supabase.functions.invoke(...)\<close>, with how it ended;
  \<^item> \<open>Finished\<close>: the call returned or threw.
\<close>

datatype inv_request =
    Invite "user_id list" CallInvitePayload
  | Cancel "user_id list" string user_id

datatype inv_task =
    AwaitSubscribe inv_request nat
  | AwaitChannel inv_request "nat option"
  | AwaitSend inv_request nat "user_id list" outcome
  | AwaitPush outcome
  | Finished outcome

fun recipients_of :: "inv_request \<Rightarrow> user_id list" where
  "recipients_of (Invite recipients payload) = recipients"
| "recipients_of (Cancel recipients room from_id) = recipients"

fun publish_call :: "inv_request \<Rightarrow> nat \<Rightarrow> user_id \<Rightarrow> inv_effect" where
  "publish_call (Invite recipients payload) ch to_id = SendIncomingCall ch payload to_id"
| "publish_call (Cancel recipients room from_id) ch to_id = SendCallCancelled ch room from_id to_id"

text \<open>What follows the \<open>try\<close> around the loop: the push request of \<open>sendCallInvite\<close>.\<close>

fun after_loop ::
  "(inv_log \<Rightarrow> inv_effect \<Rightarrow> bool) \<Rightarrow> inv_request \<Rightarrow> invites_module \<Rightarrow> inv_task \<times> invites_module" where
  "after_loop t (Cancel recipients room from_id) m = (Finished Returned, m)"
| "after_loop t (Invite recipients payload) m =
     (case inv_call t (InvokePush recipients (push_title payload) ''Tap to answer''
                         (''chat-'' @ cip_chatRoomId payload)) m of
        (r, m') \<Rightarrow> (AwaitPush r, m'))"

text \<open>The next turn of the loop: the \<open>send\<close> to the next recipient, up to its \<open>await\<close>.\<close>

fun send_next ::
  "(inv_log \<Rightarrow> inv_effect \<Rightarrow> bool) \<Rightarrow> inv_request \<Rightarrow> nat \<Rightarrow> user_id list \<Rightarrow> invites_module \<Rightarrow>
   inv_task \<times> invites_module" where
  "send_next t req ch [] m = after_loop t req m"
| "send_next t req ch (to_id # rest) m =
     (case inv_call t (publish_call req ch to_id) m of
        (r, m') \<Rightarrow> (AwaitSend req ch rest r, m'))"

text \<open>A call is made: it runs to the first \<open>await\<close>.\<close>

definition start_call ::
  "(inv_log \<Rightarrow> inv_effect \<Rightarrow> bool) \<Rightarrow> inv_request \<Rightarrow> invites_module \<Rightarrow> inv_task \<times> invites_module" where
  "start_call t req m =
     (case getInvitesChannel_begin t m of
        (Rejected, m1) \<Rightarrow> (AwaitChannel req None, m1)
      | (Ready ch, m1) \<Rightarrow> (AwaitChannel req (Some ch), m1)
      | (Subscribing ch, m1) \<Rightarrow> (AwaitSubscribe req ch, m1))"

text \<open>A suspended call goes on, to its next \<open>await\<close> or to its end.\<close>

fun continue_task ::
  "(inv_log \<Rightarrow> inv_effect \<Rightarrow> bool) \<Rightarrow> inv_task \<Rightarrow> invites_module \<Rightarrow> inv_task \<times> invites_module" where
  "continue_task t (AwaitSubscribe req ch) m =
     (case getInvitesChannel_resume ch m of (ch', m') \<Rightarrow> (AwaitChannel req (Some ch'), m'))"
| "continue_task t (AwaitChannel req None) m = (Finished Thrown, m)"
| "continue_task t (AwaitChannel req (Some ch)) m = send_next t req ch (recipients_of req) m"
| "continue_task t (AwaitSend req ch rest Thrown) m = after_loop t req (inv_note LogError m)"
| "continue_task t (AwaitSend req ch rest Returned) m = send_next t req ch rest m"
| "continue_task t (AwaitPush Thrown) m = (Finished Returned, inv_note LogWarn m)"
| "continue_task t (AwaitPush Returned) m = (Finished Returned, m)"
| "continue_task t (Finished r) m = (Finished r, m)"






text \<open>A suspended call goes on \<open>n\<close> times with nothing else in between.\<close>

fun drive ::
  "(inv_log \<Rightarrow> inv_effect \<Rightarrow> bool) \<Rightarrow> nat \<Rightarrow> inv_task \<times> invites_module \<Rightarrow>
   inv_task \<times> invites_module" where
  "drive t 0 x = x"
| "drive t (Suc n) x = drive t n (continue_task t (fst x) (snd x))"

section \<open>Concrete scenarios\<close>

text \<open>A browser in which no call throws, and one in which \<open>track.stop()\<close> throws.\<close>

definition quiet :: browser where
  "quiet = \<lparr>throws = (\<lambda>h e. False), created_sdp = (\<lambda>h. ''sdp'')\<rparr>"



text \<open>User \<open>u1\<close> in a voice call of room \<open>room1\<close> with \<open>u2\<close>, as callee and as caller.\<close>

definition callee_props :: props where
  "callee_props =
     \<lparr>chatRoomId = ''room1'', isIncoming = True, callType = voice,
      participants = [''u1'', ''u2''], userId = ''u1''\<rparr>"


text \<open>What \<open>getUserMedia({audio: true, video: false})\<close> resolves to: one live audio track.\<close>

definition mic :: "nat \<Rightarrow> media_stream" where
  "mic n = \<lparr>stream_id = n, tracks = [\<lparr>kind = Audio, enabled = True\<rparr>]\<rparr>"

text \<open>The callee's component after mounting and acquiring the microphone.\<close>

definition in_call :: call_state where
  "in_call = run callee_props quiet [Mount, MediaResolved (mic 0)] (initial_state callee_props)"

text \<open>
  The user mutes, then the \<open>user\<close> dependency of the mount effect changes and the call is
  initialised again with a fresh stream: \<open>isMuted\<close> is still true, the new track enabled.
\<close>

definition remuted :: call_state where
  "remuted = run callee_props quiet [ToggleMute, DepsChanged, MediaResolved (mic 1)] in_call"

section \<open>Reading the log\<close>




text \<open>The \<open>addIceCandidate\<close> and \<open>setRemoteDescription\<close> calls of a log, in order.\<close>

fun candidates_applied :: "log \<Rightarrow> (nat \<times> string) list" where
  "candidates_applied [] = []"
| "candidates_applied ((PcCall pc (AddIceCandidate c), r) # l) = (pc, c) # candidates_applied l"
| "candidates_applied (x # l) = candidates_applied l"

fun descriptions_applied :: "log \<Rightarrow> (nat \<times> desc) list" where
  "descriptions_applied [] = []"
| "descriptions_applied ((PcCall pc (SetRemoteDescription d), r) # l) =
     (pc, d) # descriptions_applied l"
| "descriptions_applied (x # l) = descriptions_applied l"

text \<open>The connections constructed, and the connections closed, in a log.\<close>

fun connections_made :: "log \<Rightarrow> nat list" where
  "connections_made [] = []"
| "connections_made ((NewPeerConnection pc, r) # l) = pc # connections_made l"
| "connections_made (x # l) = connections_made l"

fun closed_pcs :: "log \<Rightarrow> nat list" where
  "closed_pcs [] = []"
| "closed_pcs ((PcCall pc Close, r) # l) = pc # closed_pcs l"
| "closed_pcs (x # l) = closed_pcs l"

text \<open>
  No method of a connection is called once \<open>close()\<close> has been called on it:
  \<open>respects_close closed l\<close> reads the log \<open>l\<close> with \<open>closed\<close> the connections closed
  before it.
\<close>

fun respects_close :: "nat list \<Rightarrow> log \<Rightarrow> bool" where
  "respects_close closed [] = True"
| "respects_close closed ((PcCall pc c, r) # l) =
     (pc \<notin> set closed \<and> respects_close (if c = Close then pc # closed else closed) l)"
| "respects_close closed (x # l) = respects_close closed l"

definition no_call_after_close :: "log \<Rightarrow> bool" where
  "no_call_after_close l = respects_close [] l"


definition connection_calls :: "media_stream \<Rightarrow> nat \<Rightarrow> log" where
  "connection_calls stream pc =
     (NewPeerConnection pc, Returned) #
     map (\<lambda>i. (PcCall pc (AddTrack (stream_id stream) i), Returned)) [0..<length (tracks stream)]"

fun registered :: "user_id list \<Rightarrow> nat \<Rightarrow> (user_id \<times> nat) list \<Rightarrow> (user_id \<times> nat) list" where
  "registered [] n m = m"
| "registered (u # us) n m = registered us (Suc n) (map_set u n m)"

section \<open>What the specification asks of a log\<close>

text \<open>
  Candidate buffering as the specification words it: on connection \<open>pc\<close> no candidate
  is handed to \<open>addIceCandidate\<close> before the first remote description is applied.
\<close>

fun remote_description_first :: "nat \<Rightarrow> log \<Rightarrow> bool" where
  "remote_description_first pc [] = True"
| "remote_description_first pc ((PcCall q (SetRemoteDescription d), r) # l) =
     (if q = pc then True else remote_description_first pc l)"
| "remote_description_first pc ((PcCall q (AddIceCandidate c), r) # l) =
     (if q = pc then False else remote_description_first pc l)"
| "remote_description_first pc (x # l) = remote_description_first pc l"






text \<open>
  The per-connection state machine of the specification (its section 4.3), which the
  source does not keep: the initiator is in \<open>LocalOfferSent\<close> once it has set its local
  offer; the responder is in \<open>RemoteOfferReceived\<close> once it has applied a remote offer and
  in \<open>Negotiating\<close> once it has set its answer; the initiator is in \<open>Negotiating\<close> once
  it has applied the answer; \<open>close()\<close> leads to \<open>Closed\<close>, which is final. \<open>Connected\<close>
  is reported by the media transport, not reached by a signaling call.
\<close>

datatype pc_state = New | LocalOfferSent | RemoteOfferReceived | Negotiating | Connected | Closed

fun spec_apply :: "pc_state \<Rightarrow> pc_call \<Rightarrow> pc_state" where
  "spec_apply Closed c = Closed"
| "spec_apply s Close = Closed"
| "spec_apply s (SetLocalDescription (SdpOffer x)) = LocalOfferSent"
| "spec_apply s (SetRemoteDescription (SdpOffer x)) = RemoteOfferReceived"
| "spec_apply s (SetLocalDescription (SdpAnswer x)) = Negotiating"
| "spec_apply s (SetRemoteDescription (SdpAnswer x)) = Negotiating"
| "spec_apply s c = s"

fun spec_rank :: "pc_state \<Rightarrow> nat" where
  "spec_rank New = 0"
| "spec_rank LocalOfferSent = 1"
| "spec_rank RemoteOfferReceived = 1"
| "spec_rank Negotiating = 2"
| "spec_rank Connected = 3"
| "spec_rank Closed = 4"

text \<open>The states connection \<open>pc\<close> passes through, one per call on it that returned.\<close>

fun spec_states :: "nat \<Rightarrow> pc_state \<Rightarrow> log \<Rightarrow> pc_state list" where
  "spec_states pc s [] = []"
| "spec_states pc s ((PcCall q c, r) # l) =
     (if q = pc \<and> r = Returned
      then spec_apply s c # spec_states pc (spec_apply s c) l
      else spec_states pc s l)"
| "spec_states pc s (x # l) = spec_states pc s l"

fun never_backward :: "pc_state list \<Rightarrow> bool" where
  "never_backward [] = True"
| "never_backward [s] = True"
| "never_backward (s # s' # ss) = (spec_rank s \<le> spec_rank s' \<and> never_backward (s' # ss))"

section \<open>Reading the invitation module's log\<close>

text \<open>The recipients a publish was attempted to, in order.\<close>

fun attempted :: "inv_log \<Rightarrow> user_id list" where
  "attempted [] = []"
| "attempted ((SendIncomingCall ch payload to_id, r) # l) = to_id # attempted l"
| "attempted ((SendCallCancelled ch room from_id to_id, r) # l) = to_id # attempted l"
| "attempted (x # l) = attempted l"






section \<open>Further scenarios\<close>

text \<open>
  A candidate from \<open>u2\<close> reaches the callee before \<open>u2\<close>'s offer does: once with the
  connection for \<open>u2\<close> in place, once while \<open>getUserMedia\<close> is still pending.
\<close>

definition early_candidate :: call_state where
  "early_candidate =
     run callee_props quiet
       [Broadcast (IceCandidate ''u2'' ''u1'' ''c1''), Broadcast (Offer ''u2'' ''u1'' ''o'')] in_call"

definition dropped_candidate :: call_state where
  "dropped_candidate =
     run callee_props quiet
       [Mount, Broadcast (IceCandidate ''u2'' ''u1'' ''c1''), MediaResolved (mic 0),
        Broadcast (Offer ''u2'' ''u1'' ''o'')] (initial_state callee_props)"



text \<open>
  User \<open>u2\<close> is invited by \<open>u1\<close> to room \<open>room1\<close>, and \<open>u1\<close> cancels before \<open>u2\<close> acts.
\<close>

definition invite_u2 :: incoming_payload where
  "invite_u2 =
     \<lparr>ip_chatRoomId = ''room1'', ip_callType = voice, ip_from = ''u1'', ip_to = ''u2'',
      ip_participants = Some [''u1'', ''u2'']\<rparr>"

definition cancel_u2 :: cancelled_payload where
  "cancel_u2 = \<lparr>cp_chatRoomId = ''room1'', cp_from = ''u1'', cp_to = ''u2''\<rparr>"

definition invited_then_cancelled :: page_state where
  "invited_then_cancelled =
     on_call_cancelled ''u2'' cancel_u2
       (on_incoming_call ''u2'' invite_u2 (useIncomingCalls_effect initial_page))"

text \<open>A transport on which every publish addressed to \<open>u2\<close> throws.\<close>

definition u2_unreachable :: "inv_log \<Rightarrow> inv_effect \<Rightarrow> bool" where
  "u2_unreachable h e =
     (case e of
        SendIncomingCall ch payload to_id \<Rightarrow> to_id = ''u2''
      | SendCallCancelled ch room from_id to_id \<Rightarrow> to_id = ''u2''
      | _ \<Rightarrow> False)"

text \<open>The module once the channel has been created and subscribed.\<close>

definition subscribed_module :: invites_module where
  "subscribed_module =
     \<lparr>invitesChannel = Some 0, subscribed = True, next_channel = 1,
      inv_effects = [(CreateChannel ''call-invites'' 0, Returned), (Subscribe 0, Returned)]\<rparr>"

definition room1_invite :: CallInvitePayload where
  "room1_invite =
     \<lparr>cip_chatRoomId = ''room1'', cip_callType = voice, cip_from = ''u1'',
      cip_participants = [''u1'', ''u2'', ''u3''], cip_timestamp = None\<rparr>"










text \<open>A browser in which every method but \<open>close()\<close> throws on a closed connection.\<close>

definition closed_rejects :: browser where
  "closed_rejects =
     quiet\<lparr>throws := (\<lambda>h e. case e of PcCall pc c \<Rightarrow> c \<noteq> Close \<and> pc \<in> set (closed_pcs h)
                              | _ \<Rightarrow> False)\<rparr>"

text \<open>
  The callee is handling \<open>u2\<close>'s offer, suspended at \<open>await setRemoteDescription\<close>, when
  the user ends the call; then the handler goes on.
\<close>

definition ended_under_handler :: "action list" where
  "ended_under_handler =
     [Ev Mount, Ev (MediaResolved (mic 0)), Ev (Broadcast (Offer ''u2'' ''u1'' ''o'')),
      Ev EndCall]"

definition ended_call :: component where
  "ended_call =
     sched callee_props closed_rejects ended_under_handler (initial_component callee_props)"

definition closed_under_handler :: component where
  "closed_under_handler = act callee_props closed_rejects (Resume 0) ended_call"

text \<open>The callee receives the same offer of \<open>u2\<close> twice, each handled to its end.\<close>

definition offered_twice :: component where
  "offered_twice =
     sched callee_props quiet
       [Ev Mount, Ev (MediaResolved (mic 0)),
        Ev (Broadcast (Offer ''u2'' ''u1'' ''o'')), Resume 0, Resume 0, Resume 0,
        Ev (Broadcast (Offer ''u2'' ''u1'' ''o'')), Resume 1, Resume 1, Resume 1]
       (initial_component callee_props)"

section \<open>Invariant of the invitation module\<close>





section \<open>Invariant of the connection registry\<close>

text \<open>The connections a method was called on, in a log.\<close>

fun called_pcs :: "log \<Rightarrow> nat list" where
  "called_pcs [] = []"
| "called_pcs ((PcCall pc c, r) # l) = pc # called_pcs l"
| "called_pcs (x # l) = called_pcs l"

text \<open>
  Every closed connection and every connection in the registry has been numbered, no
  connection in the registry is closed, and no connection is registered twice.
\<close>

definition registry_ok :: "call_state \<Rightarrow> bool" where
  "registry_ok st =
     ((\<forall>pc\<in>set (closed_pcs (effects st)). pc < next_pc st) \<and>
      (\<forall>pc\<in>snd ` set (peerConnectionsRef st).
         pc < next_pc st \<and> pc \<notin> set (closed_pcs (effects st))) \<and>
      distinct (map snd (peerConnectionsRef st)))"

text \<open>
  From \<open>st\<close> to \<open>s\<close> the log has only grown. \<open>plain_step H st s\<close>: by calls none of which
  is a \<open>close()\<close> and each of which is on a connection of \<open>H\<close> or on one not closed in
  \<open>st\<close>. \<open>safe_step st s\<close>: by calls none of which is on a connection closed before it.
  \<open>handler_step H st s\<close>: a plain step that leaves the registry and the numbering alone.
  \<open>plain_call H st e\<close>: the call \<open>e\<close> is one a plain step may make.
\<close>

definition plain_step :: "nat list \<Rightarrow> call_state \<Rightarrow> call_state \<Rightarrow> bool" where
  "plain_step H st s =
     (\<exists>new. effects s = effects st @ new \<and> closed_pcs new = [] \<and>
        (\<forall>pc\<in>set (called_pcs new). pc \<in> set H \<or> pc \<notin> set (closed_pcs (effects st))))"

definition safe_step :: "call_state \<Rightarrow> call_state \<Rightarrow> bool" where
  "safe_step st s =
     (\<exists>new. effects s = effects st @ new \<and> respects_close (closed_pcs (effects st)) new)"

definition handler_step :: "nat list \<Rightarrow> call_state \<Rightarrow> call_state \<Rightarrow> bool" where
  "handler_step H st s =
     (plain_step H st s \<and> peerConnectionsRef s = peerConnectionsRef st \<and>
      next_pc s = next_pc st)"

definition plain_call :: "nat list \<Rightarrow> call_state \<Rightarrow> effect \<Rightarrow> bool" where
  "plain_call H st e =
     (case e of
        PcCall pc c \<Rightarrow> c \<noteq> Close \<and> (pc \<in> set H \<or> pc \<notin> set (closed_pcs (effects st)))
      | _ \<Rightarrow> True)"

text \<open>
  What one action adds to the log, and the connection held in its local variable by the
  suspended handler that the action resumes.
\<close>

definition added :: "component \<Rightarrow> component \<Rightarrow> log" where
  "added s s' = drop (length (effects (core s))) (effects (core s'))"

fun held :: "task \<Rightarrow> nat list" where
  "held (Offer_applied from_id pc) = [pc]"
| "held (Offer_answered from_id pc answer) = [pc]"
| "held (Offer_set from_id pc answer) = [pc]"
| "held (Start_offered i participantId pc offer) = [pc]"
| "held (Start_set i participantId pc offer) = [pc]"
| "held Done = []"

fun holder :: "component \<Rightarrow> action \<Rightarrow> nat list" where
  "holder s (Ev e) = []"
| "holder s (Resume i) = (if i < length (tasks s) then held (tasks s ! i) else [])"

text \<open>The connections closed before an action that the action's handler does not hold.\<close>

definition closed_to :: "component \<Rightarrow> action \<Rightarrow> nat list" where
  "closed_to s a = filter (\<lambda>pc. pc \<notin> set (holder s a)) (closed_pcs (effects (core s)))"

section \<open>Evaluation and helper lemmas\<close>

lemmas inv_defs =
  u2_unreachable_def room1_invite_def initial_module_def inv_call_def
  inv_note_def getInvitesChannel_def getInvitesChannel_begin_def getInvitesChannel_resume_def
  sendCallInvite_def sendCallCancelled_def push_title_def

lemmas page_defs =
  invite_u2_def cancel_u2_def initial_page_def useIncomingCalls_effect_def
  on_incoming_call_def on_call_cancelled_def clearIncomingCall_def acceptIncoming_def
  declineIncoming_def accept_offered_def

lemmas model_defs =
  quiet_def callee_props_def mic_def
  initial_state_def mount_effect_def connected_effect_def
  initializeCall_start_def initializeCall_resume_def initializeCall_catch_def
  addTracks_def stop_calls_def close_calls_def unsubscribe_calls_def
  createPeerConnection_def setupSignaling_def channel_name_def call_api_def log_note_def
  then_do_def channel_send_def handleOffer_def handleAnswer_def handleIceCandidate_def
  ontrack_def onicecandidate_def startCall_def toggleMute_def toggleVideo_def
  flip_enabled_def cleanup_def endCall_def

lemma first_track_Some:
  "first_track k ts = Some i \<Longrightarrow> i < length ts \<and> kind (ts ! i) = k"
  by (induction ts arbitrary: i) (auto split: if_splits)

lemma first_track_flip:
  "first_track k (ts[j := (ts ! j)\<lparr>enabled := v\<rparr>]) = first_track k ts"
proof (induction ts arbitrary: j)
  case Nil
  then show ?case by simp
next
  case (Cons t ts)
  then show ?case by (cases j) auto
qed

lemma flip_enabled_twice: "flip_enabled i (flip_enabled i s) = s"
  by (cases "i < length (tracks s)") (simp_all add: flip_enabled_def list_update_beyond)

lemma toggleMute_step:
  assumes "localStream st = Some s" "first_track Audio (tracks s) = Some i"
  shows "toggleMute st = st\<lparr>localStream := Some (flip_enabled i s),
           isMuted := enabled (tracks s ! i)\<rparr>"
  using assms first_track_Some[OF assms(2)]
  by (simp add: toggleMute_def flip_enabled_def)

section \<open>Mute toggle\<close>

text \<open>
  C10 (as amended). When the local stream has an audio track, at position \<open>i\<close>, one call
  of \<open>toggleMute\<close> flips that track's \<open>enabled\<close> flag and sets \<open>isMuted\<close> to the negation
  of the new flag; two calls in a row restore the flag, and leave \<open>isMuted\<close> equal to the
  negation of the flag, so the whole state is restored exactly when \<open>isMuted\<close> was the
  negation of the flag to begin with. With no local stream, or no audio track in it,
  \<open>toggleMute\<close> changes nothing.
\<close>

theorem toggleMute_flip_and_restore:
  "(localStream st = Some s \<and> first_track Audio (tracks s) = Some i \<longrightarrow>
      localStream (toggleMute st) = Some (flip_enabled i s) \<and>
      enabled (tracks (flip_enabled i s) ! i) = (\<not> enabled (tracks s ! i)) \<and>
      isMuted (toggleMute st) = (\<not> enabled (tracks (flip_enabled i s) ! i)) \<and>
      localStream (toggleMute (toggleMute st)) = Some s \<and>
      isMuted (toggleMute (toggleMute st)) = (\<not> enabled (tracks s ! i)) \<and>
      (isMuted st = (\<not> enabled (tracks s ! i)) \<longrightarrow> toggleMute (toggleMute st) = st)) \<and>
   (localStream st = None \<longrightarrow> toggleMute st = st) \<and>
   (localStream st = Some s \<and> first_track Audio (tracks s) = None \<longrightarrow> toggleMute st = st)"
proof (intro conjI impI)
  assume a: "localStream st = Some s \<and> first_track Audio (tracks s) = Some i"
  then have ls: "localStream st = Some s" and ft: "first_track Audio (tracks s) = Some i"
    by auto
  have il: "i < length (tracks s)"
    using first_track_Some[OF ft] by simp
  have ft': "first_track Audio (tracks (flip_enabled i s)) = Some i"
    using ft by (simp add: flip_enabled_def first_track_flip)
  have t1: "toggleMute st =
      st\<lparr>localStream := Some (flip_enabled i s), isMuted := enabled (tracks s ! i)\<rparr>"
    by (rule toggleMute_step[OF ls ft])
  have fl: "enabled (tracks (flip_enabled i s) ! i) = (\<not> enabled (tracks s ! i))"
    using il by (simp add: flip_enabled_def)
  have t2: "toggleMute (toggleMute st) =
      st\<lparr>localStream := Some s, isMuted := \<not> enabled (tracks s ! i)\<rparr>"
    using toggleMute_step[of "toggleMute st" "flip_enabled i s" i] ft' fl
    by (simp add: t1 flip_enabled_twice)
  show "localStream (toggleMute st) = Some (flip_enabled i s)"
    by (simp add: t1)
  show "enabled (tracks (flip_enabled i s) ! i) = (\<not> enabled (tracks s ! i))"
    by (rule fl)
  show "isMuted (toggleMute st) = (\<not> enabled (tracks (flip_enabled i s) ! i))"
    by (simp add: t1 fl)
  show "localStream (toggleMute (toggleMute st)) = Some s"
    by (simp add: t2)
  show "isMuted (toggleMute (toggleMute st)) = (\<not> enabled (tracks s ! i))"
    by (simp add: t2)
  show "toggleMute (toggleMute st) = st" if "isMuted st = (\<not> enabled (tracks s ! i))"
    using that ls by (simp add: t2)
next
  assume "localStream st = None"
  then show "toggleMute st = st"
    by (simp add: toggleMute_def)
next
  assume "localStream st = Some s \<and> first_track Audio (tracks s) = None"
  then show "toggleMute st = st"
    by (simp add: toggleMute_def)
qed

theorem toggleMute_flip_and_restore_witness:
  "localStream in_call = Some (mic 0) \<and> first_track Audio (tracks (mic 0)) = Some 0 \<and>
   isMuted in_call = (\<not> enabled (tracks (mic 0) ! 0)) \<and>
   isMuted (toggleMute in_call) \<and>
   toggleMute (toggleMute in_call) = in_call"
  using toggleMute_flip_and_restore[of in_call "mic 0" 0]
  by (simp add: in_call_def model_defs)

text \<open>
  The claim as stated fails in the state \<open>remuted\<close>: the track is enabled and \<open>isMuted\<close>
  is true, and after two calls \<open>isMuted\<close> is false.
\<close>

theorem toggleMute_twice_counterexample:
  "localStream remuted = Some (mic 1) \<and> isMuted remuted \<and>
   isMuted (toggleMute (toggleMute remuted)) \<noteq> isMuted remuted"
  by (simp add: remuted_def in_call_def model_defs)

section \<open>Misaddressed payloads\<close>

text \<open>
  C6. A payload whose \<open>to\<close> field is not the local user's id changes nothing: an
  \<open>Offer\<close>, \<open>Answer\<close> or \<open>IceCandidate\<close> leaves the whole state of the call component as it
  was (peer connections, remote streams, and no call made on any external object), and
  an incoming-call invitation leaves the page state (the pending incoming call
  included) as it was.
\<close>

theorem misaddressed_payload_is_noop:
  "(to_id \<noteq> userId p \<longrightarrow>
      on_broadcast p b (Offer from_id to_id sdp) st = st \<and>
      on_broadcast p b (Answer from_id to_id sdp) st = st \<and>
      on_broadcast p b (IceCandidate from_id to_id candidate) st = st) \<and>
   (ip_to payload \<noteq> uid \<longrightarrow> on_incoming_call uid payload s = s)"
  by (simp add: on_incoming_call_def)

theorem misaddressed_payload_is_noop_witness:
  "''u3'' \<noteq> userId callee_props \<and>
   on_broadcast callee_props quiet (Offer ''u2'' ''u3'' ''o'') in_call = in_call \<and>
   on_broadcast callee_props quiet (Answer ''u2'' ''u3'' ''o'') in_call = in_call \<and>
   on_broadcast callee_props quiet (IceCandidate ''u2'' ''u3'' ''c'') in_call = in_call \<and>
   ip_to \<lparr>ip_chatRoomId = ''room1'', ip_callType = voice, ip_from = ''u2'', ip_to = ''u3'',
          ip_participants = Some [''u2'', ''u3'']\<rparr> \<noteq> ''u1'' \<and>
   on_incoming_call ''u1''
     \<lparr>ip_chatRoomId = ''room1'', ip_callType = voice, ip_from = ''u2'', ip_to = ''u3'',
      ip_participants = Some [''u2'', ''u3'']\<rparr> initial_page = initial_page"
  using misaddressed_payload_is_noop[of "''u3''" callee_props quiet "''u2''" "''o''" in_call
      "''c''" "\<lparr>ip_chatRoomId = ''room1'', ip_callType = voice, ip_from = ''u2'',
                ip_to = ''u3'', ip_participants = Some [''u2'', ''u3'']\<rparr>" "''u1''" initial_page]
  by (simp add: callee_props_def)

section \<open>Cancelled invitations\<close>

lemma on_call_cancelled_unseen:
  "seen_incomingCall s = None \<Longrightarrow> on_call_cancelled uid payload s = s"
  by (simp add: on_call_cancelled_def)

text \<open>
  C4. The claim is that a \<open>call-cancelled\<close> event with the chat room of the pending
  invitation, arriving before the user acts, clears the pending incoming call, so that
  the invitation can no longer be accepted. In the source the callback compares with the
  \<open>incomingCall\<close> of the render in which the effect ran, which is still \<open>null\<close>: after the
  invitation and its cancellation the incoming call is still pending, the overlay still
  offers to accept, and accepting starts the call.
\<close>

theorem cancelled_invitation_stays_pending:
  "ip_to invite_u2 = ''u2'' \<and> cp_to cancel_u2 = ''u2'' \<and>
   cp_chatRoomId cancel_u2 = ip_chatRoomId invite_u2 \<and>
   incomingCall invited_then_cancelled =
     Some \<lparr>ic_chatRoomId = ''room1'', ic_callType = voice, ic_from = ''u1'', ic_to = ''u2'',
           ic_participants = [''u1'', ''u2'']\<rparr> \<and>
   accept_offered invited_then_cancelled \<and>
   activeCall (acceptIncoming invited_then_cancelled) =
     Some \<lparr>ac_chatRoomId = ''room1'', ac_callType = voice, ac_participants = [''u1'', ''u2'']\<rparr>"
  by (simp add: invited_then_cancelled_def page_defs)


section \<open>Dispatch of invitations and cancellations\<close>

lemma send_cancels_log:
  "send_cancels t ch room f rs m = (r, m') \<Longrightarrow>
   \<exists>k\<le>length rs.
     m' = m\<lparr>inv_effects := inv_effects m @
            map (\<lambda>to_id. (SendCallCancelled ch room f to_id, Returned)) (take k rs) @
            (if k < length rs then [(SendCallCancelled ch room f (rs ! k), Thrown)] else [])\<rparr> \<and>
     (r = Returned) = (k = length rs)"
proof (induction rs arbitrary: m)
  case Nil
  then show ?case by auto
next
  case (Cons x rs)
  show ?case
  proof (cases "t (inv_effects m) (SendCallCancelled ch room f x)")
    case True
    with Cons.prems have "r = Thrown" "m' = m\<lparr>inv_effects := inv_effects m @ [(SendCallCancelled ch room f x, Thrown)]\<rparr>"
      by (auto simp: inv_call_def)
    then show ?thesis by (intro exI[of _ 0]) simp
  next
    case False
    let ?m1 = "m\<lparr>inv_effects := inv_effects m @ [(SendCallCancelled ch room f x, Returned)]\<rparr>"
    from False Cons.prems have "send_cancels t ch room f rs ?m1 = (r, m')"
      by (auto simp: inv_call_def)
    from Cons.IH[OF this] obtain k where k: "k \<le> length rs"
      "m' = ?m1\<lparr>inv_effects := inv_effects ?m1 @
            map (\<lambda>to_id. (SendCallCancelled ch room f to_id, Returned)) (take k rs) @
            (if k < length rs then [(SendCallCancelled ch room f (rs ! k), Thrown)] else [])\<rparr>"
      "(r = Returned) = (k = length rs)" by blast
    then show ?thesis by (intro exI[of _ "Suc k"]) simp
  qed
qed

lemma send_invites_log:
  "send_invites t ch payload rs m = (r, m') \<Longrightarrow>
   \<exists>k\<le>length rs.
     m' = m\<lparr>inv_effects := inv_effects m @
            map (\<lambda>to_id. (SendIncomingCall ch payload to_id, Returned)) (take k rs) @
            (if k < length rs then [(SendIncomingCall ch payload (rs ! k), Thrown)] else [])\<rparr> \<and>
     (r = Returned) = (k = length rs)"
proof (induction rs arbitrary: m)
  case Nil
  then show ?case by auto
next
  case (Cons x rs)
  show ?case
  proof (cases "t (inv_effects m) (SendIncomingCall ch payload x)")
    case True
    with Cons.prems have "r = Thrown" "m' = m\<lparr>inv_effects := inv_effects m @ [(SendIncomingCall ch payload x, Thrown)]\<rparr>"
      by (auto simp: inv_call_def)
    then show ?thesis by (intro exI[of _ 0]) simp
  next
    case False
    let ?m1 = "m\<lparr>inv_effects := inv_effects m @ [(SendIncomingCall ch payload x, Returned)]\<rparr>"
    from False Cons.prems have "send_invites t ch payload rs ?m1 = (r, m')"
      by (auto simp: inv_call_def)
    from Cons.IH[OF this] obtain k where k: "k \<le> length rs"
      "m' = ?m1\<lparr>inv_effects := inv_effects ?m1 @
            map (\<lambda>to_id. (SendIncomingCall ch payload to_id, Returned)) (take k rs) @
            (if k < length rs then [(SendIncomingCall ch payload (rs ! k), Thrown)] else [])\<rparr>"
      "(r = Returned) = (k = length rs)" by blast
    then show ?thesis by (intro exI[of _ "Suc k"]) simp
  qed
qed


text \<open>
  C3 (as amended). Once the channel has been obtained, \<open>sendCallInvite\<close> and
  \<open>sendCallCancelled\<close> never raise: a publish that throws is caught and logged once. It
  also ends the dispatch loop: publishes are attempted, in order, to the first \<open>k\<close>
  recipients, which return, and to recipient \<open>k\<close>, which throws, and to no recipient
  after it; when no publish throws, \<open>k\<close> is the number of recipients and every one is
  attempted. \<open>sendCallInvite\<close> then requests the push notification in either case, and a
  failure of that request is logged as a warning.
\<close>

theorem failed_publish_is_logged_and_ends_the_loop:
  "getInvitesChannel t m = (Some ch, m1) \<longrightarrow>
     (\<exists>k\<le>length recipients.
        sendCallCancelled t recipients room from_id m =
          (Returned, m1\<lparr>inv_effects := inv_effects m1 @
             map (\<lambda>to_id. (SendCallCancelled ch room from_id to_id, Returned)) (take k recipients) @
             (if k < length recipients
              then [(SendCallCancelled ch room from_id (recipients ! k), Thrown), (LogError, Returned)]
              else [])\<rparr>)) \<and>
     (\<exists>k\<le>length recipients. \<exists>r.
        fst (sendCallInvite t recipients payload m) = Returned \<and>
        inv_effects (snd (sendCallInvite t recipients payload m)) =
          inv_effects m1 @
          map (\<lambda>to_id. (SendIncomingCall ch payload to_id, Returned)) (take k recipients) @
          (if k < length recipients
           then [(SendIncomingCall ch payload (recipients ! k), Thrown), (LogError, Returned)]
           else []) @
          (InvokePush recipients (push_title payload) ''Tap to answer''
             (''chat-'' @ cip_chatRoomId payload), r) #
          (if r = Thrown then [(LogWarn, Returned)] else []))"
proof (intro impI conjI)
  assume g: "getInvitesChannel t m = (Some ch, m1)"
  obtain r m' where sc: "send_cancels t ch room from_id recipients m1 = (r, m')"
    by (cases "send_cancels t ch room from_id recipients m1") auto
  from send_cancels_log[OF sc] obtain k where k: "k \<le> length recipients"
    "m' = m1\<lparr>inv_effects := inv_effects m1 @
            map (\<lambda>to_id. (SendCallCancelled ch room from_id to_id, Returned)) (take k recipients) @
            (if k < length recipients then [(SendCallCancelled ch room from_id (recipients ! k), Thrown)] else [])\<rparr>"
    "(r = Returned) = (k = length recipients)" by blast
  show "\<exists>k\<le>length recipients.
        sendCallCancelled t recipients room from_id m =
          (Returned, m1\<lparr>inv_effects := inv_effects m1 @
             map (\<lambda>to_id. (SendCallCancelled ch room from_id to_id, Returned)) (take k recipients) @
             (if k < length recipients
              then [(SendCallCancelled ch room from_id (recipients ! k), Thrown), (LogError, Returned)]
              else [])\<rparr>)"
    using k g sc
    by (intro exI[of _ k]) (cases r; auto simp: sendCallCancelled_def inv_note_def)
next
  assume g: "getInvitesChannel t m = (Some ch, m1)"
  obtain r m' where sc: "send_invites t ch payload recipients m1 = (r, m')"
    by (cases "send_invites t ch payload recipients m1") auto
  from send_invites_log[OF sc] obtain k where k: "k \<le> length recipients"
    "m' = m1\<lparr>inv_effects := inv_effects m1 @
            map (\<lambda>to_id. (SendIncomingCall ch payload to_id, Returned)) (take k recipients) @
            (if k < length recipients then [(SendIncomingCall ch payload (recipients ! k), Thrown)] else [])\<rparr>"
    "(r = Returned) = (k = length recipients)" by blast
  define m2 where "m2 = (case r of Thrown \<Rightarrow> inv_note LogError m' | Returned \<Rightarrow> m')"
  define push where "push = InvokePush recipients (push_title payload) ''Tap to answer''
             (''chat-'' @ cip_chatRoomId payload)"
  define r2 where "r2 = (if t (inv_effects m2) push then Thrown else Returned)"
  have m2: "inv_effects m2 = inv_effects m1 @
          map (\<lambda>to_id. (SendIncomingCall ch payload to_id, Returned)) (take k recipients) @
          (if k < length recipients
           then [(SendIncomingCall ch payload (recipients ! k), Thrown), (LogError, Returned)]
           else [])"
    using k by (cases r) (auto simp: m2_def inv_note_def)
  have "fst (sendCallInvite t recipients payload m) = Returned \<and>
        inv_effects (snd (sendCallInvite t recipients payload m)) =
          inv_effects m2 @ (push, r2) # (if r2 = Thrown then [(LogWarn, Returned)] else [])"
    using g sc
    by (cases r) (auto simp: sendCallInvite_def m2_def push_def r2_def inv_call_def inv_note_def Let_def)
  then show "\<exists>k\<le>length recipients. \<exists>r.
        fst (sendCallInvite t recipients payload m) = Returned \<and>
        inv_effects (snd (sendCallInvite t recipients payload m)) =
          inv_effects m1 @
          map (\<lambda>to_id. (SendIncomingCall ch payload to_id, Returned)) (take k recipients) @
          (if k < length recipients
           then [(SendIncomingCall ch payload (recipients ! k), Thrown), (LogError, Returned)]
           else []) @
          (InvokePush recipients (push_title payload) ''Tap to answer''
             (''chat-'' @ cip_chatRoomId payload), r) #
          (if r = Thrown then [(LogWarn, Returned)] else [])"
    using k(1) unfolding m2 push_def
    by (intro exI[of _ k] exI[of _ r2]) simp
qed


theorem failed_publish_is_logged_and_ends_the_loop_witness:
  "getInvitesChannel u2_unreachable initial_module = (Some 0, subscribed_module) \<and>
   (\<exists>k\<le>length [''u3'', ''u2'', ''u4''].
      sendCallCancelled u2_unreachable [''u3'', ''u2'', ''u4''] ''room1'' ''u1'' initial_module =
        (Returned, subscribed_module\<lparr>inv_effects := inv_effects subscribed_module @
           map (\<lambda>to_id. (SendCallCancelled 0 ''room1'' ''u1'' to_id, Returned))
             (take k [''u3'', ''u2'', ''u4'']) @
           (if k < length [''u3'', ''u2'', ''u4'']
            then [(SendCallCancelled 0 ''room1'' ''u1'' ([''u3'', ''u2'', ''u4''] ! k), Thrown),
                  (LogError, Returned)]
            else [])\<rparr>))"
proof -
  have g: "getInvitesChannel u2_unreachable initial_module = (Some 0, subscribed_module)"
    by (simp add: inv_defs subscribed_module_def)
  from mp[OF failed_publish_is_logged_and_ends_the_loop[of u2_unreachable initial_module 0
      subscribed_module "[''u3'', ''u2'', ''u4'']" "''room1''" "''u1''" room1_invite] g] g
  show ?thesis by blast
qed

text \<open>
  The claim as stated fails when the publish to \<open>u2\<close> throws: of the recipients \<open>u2\<close>,
  \<open>u3\<close> only \<open>u2\<close> is attempted, by either function.
\<close>

theorem failed_publish_counterexample:
  "attempted (inv_effects (snd (sendCallInvite u2_unreachable [''u2'', ''u3''] room1_invite
      initial_module))) = [''u2''] \<and>
   attempted (inv_effects (snd (sendCallCancelled u2_unreachable [''u2'', ''u3''] ''room1'' ''u1''
      initial_module))) = [''u2'']"
  by (simp add: inv_defs)

section \<open>ICE candidates\<close>

lemma candidates_applied_append:
  "candidates_applied (l @ l') = candidates_applied l @ candidates_applied l'"
  by (induction l rule: candidates_applied.induct) auto


lemma connections_made_append:
  "connections_made (l @ l') = connections_made l @ connections_made l'"
  by (induction l rule: connections_made.induct) auto

lemmas handler_defs =
  handleOffer_def handleAnswer_def handleIceCandidate_def then_do_def call_api_def
  channel_send_def Let_def

text \<open>
  C1 (as amended). \<open>handleIceCandidate\<close> does not buffer. For a sender that has a
  connection, the candidate is handed to \<open>addIceCandidate\<close> at once, so candidates reach
  the connection once each and in receipt order, whether or not a remote description has
  been applied, and nothing but the log of calls changes (there is no buffer to change);
  for a sender without a connection the candidate is dropped. Applying a description, in
  \<open>handleOffer\<close> or \<open>handleAnswer\<close>, passes no candidate on.
\<close>

theorem candidates_are_passed_on_unbuffered:
  "(map_of (peerConnectionsRef st) from_id = Some pc \<longrightarrow>
      candidates_applied (effects (handleIceCandidate b from_id candidate st)) =
        candidates_applied (effects st) @ [(pc, candidate)] \<and>
      handleIceCandidate b from_id candidate st =
        st\<lparr>effects := effects (handleIceCandidate b from_id candidate st)\<rparr>) \<and>
   (map_of (peerConnectionsRef st) from_id = None \<longrightarrow>
      handleIceCandidate b from_id candidate st = st) \<and>
   candidates_applied (effects (handleOffer p b sender offer st)) =
     candidates_applied (effects st) \<and>
   candidates_applied (effects (handleAnswer b sender answer st)) =
     candidates_applied (effects st)"
  by (auto simp: handler_defs candidates_applied_append split: option.splits)

theorem candidates_are_passed_on_unbuffered_witness:
  "map_of (peerConnectionsRef in_call) ''u2'' = Some 0 \<and>
   candidates_applied (effects (handleIceCandidate quiet ''u2'' ''c1'' in_call)) =
     candidates_applied (effects in_call) @ [(0, ''c1'')] \<and>
   map_of (peerConnectionsRef in_call) ''u3'' = None \<and>
   handleIceCandidate quiet ''u3'' ''c1'' in_call = in_call"
  using candidates_are_passed_on_unbuffered[of in_call "''u2''" 0 quiet "''c1''"]
    candidates_are_passed_on_unbuffered[of in_call "''u3''" 0 quiet "''c1''"]
  by (simp add: in_call_def model_defs)

text \<open>
  The claim as stated fails twice. With the connection in place, the early candidate is
  handed to \<open>addIceCandidate\<close> before any remote description, and is not handed over
  again after the offer is applied. While \<open>getUserMedia\<close> is pending there is no
  connection, and the early candidate is never handed over at all, although the offer
  that follows is applied.
\<close>

theorem candidate_buffering_counterexample:
  "\<not> remote_description_first 0 (effects early_candidate) \<and>
   candidates_applied (effects early_candidate) = [(0, ''c1'')] \<and>
   descriptions_applied (effects early_candidate) = [(0, SdpOffer ''o'')] \<and>
   candidates_applied (effects dropped_candidate) = [] \<and>
   descriptions_applied (effects dropped_candidate) = [(0, SdpOffer ''o'')]"
  by (simp add: early_candidate_def dropped_candidate_def in_call_def model_defs)

section \<open>Duplicate answers and offers\<close>




section \<open>Teardown\<close>





lemma then_do_simps:
  "then_do (Returned, st) k = k st"
  "then_do (Thrown, st) k = (Thrown, st)"
  by (simp_all add: then_do_def)








section \<open>The shared invitation channel\<close>
























text \<open>
  A call that is never overlapped by another goes through the suspended states to the
  result of the function run in one piece: the task model and \<open>sendCallInvite\<close>,
  \<open>sendCallCancelled\<close> describe the same code.
\<close>

lemma drive_add: "drive t (n + k) x = drive t k (drive t n x)"
  by (induction n arbitrary: x) simp_all

lemma drive_cancels:
  "\<exists>n. drive t n (send_next t (Cancel rs room f) ch rest m) =
     (case send_cancels t ch room f rest m of
        (Thrown, m') \<Rightarrow> (Finished Returned, inv_note LogError m')
      | (Returned, m') \<Rightarrow> (Finished Returned, m'))"
proof (induction rest arbitrary: m)
  case Nil
  show ?case by (intro exI[of _ 0]) simp
next
  case (Cons x rest)
  let ?e = "SendCallCancelled ch room f x"
  show ?case
  proof (cases "t (inv_effects m) ?e")
    case True
    then show ?thesis
      by (intro exI[of _ 1]) (simp add: inv_call_def)
  next
    case False
    let ?m1 = "m\<lparr>inv_effects := inv_effects m @ [(?e, Returned)]\<rparr>"
    from Cons.IH[of ?m1] obtain n where
      n: "drive t n (send_next t (Cancel rs room f) ch rest ?m1) =
        (case send_cancels t ch room f rest ?m1 of
           (Thrown, m') \<Rightarrow> (Finished Returned, inv_note LogError m')
         | (Returned, m') \<Rightarrow> (Finished Returned, m'))" by blast
    show ?thesis
      using False n by (intro exI[of _ "Suc n"]) (simp add: inv_call_def)
  qed
qed

lemma drive_invites:
  "\<exists>n. drive t n (send_next t (Invite rs payload) ch rest m) =
     (Finished Returned,
      (let m2 = (case send_invites t ch payload rest m of
                   (Thrown, m') \<Rightarrow> inv_note LogError m'
                 | (Returned, m') \<Rightarrow> m')
       in (case inv_call t (InvokePush rs (push_title payload) ''Tap to answer''
                              (''chat-'' @ cip_chatRoomId payload)) m2 of
             (Thrown, m') \<Rightarrow> inv_note LogWarn m'
           | (Returned, m') \<Rightarrow> m')))"
proof (induction rest arbitrary: m)
  case Nil
  show ?case
    by (intro exI[of _ 1])
       (cases "t (inv_effects m) (InvokePush rs (push_title payload) ''Tap to answer''
                              (''chat-'' @ cip_chatRoomId payload))";
        simp add: inv_call_def)
next
  case (Cons x rest)
  let ?e = "SendIncomingCall ch payload x"
  show ?case
  proof (cases "t (inv_effects m) ?e")
    case True
    let ?m1 = "inv_note LogError (m\<lparr>inv_effects := inv_effects m @ [(?e, Thrown)]\<rparr>)"
    show ?thesis
      using True
      by (intro exI[of _ 2])
         (cases "t (inv_effects ?m1) (InvokePush rs (push_title payload) ''Tap to answer''
                              (''chat-'' @ cip_chatRoomId payload))";
          simp add: inv_call_def numeral_2_eq_2 Let_def)
  next
    case False
    let ?m1 = "m\<lparr>inv_effects := inv_effects m @ [(?e, Returned)]\<rparr>"
    from Cons.IH[of ?m1] obtain n where
      n: "drive t n (send_next t (Invite rs payload) ch rest ?m1) =
     (Finished Returned,
      (let m2 = (case send_invites t ch payload rest ?m1 of
                   (Thrown, m') \<Rightarrow> inv_note LogError m'
                 | (Returned, m') \<Rightarrow> m')
       in (case inv_call t (InvokePush rs (push_title payload) ''Tap to answer''
                              (''chat-'' @ cip_chatRoomId payload)) m2 of
             (Thrown, m') \<Rightarrow> inv_note LogWarn m'
           | (Returned, m') \<Rightarrow> m')))" by blast
    show ?thesis
      using False n by (intro exI[of _ "Suc n"]) (simp add: inv_call_def)
  qed
qed

lemma drive_to_channel:
  "\<exists>n. drive t n (start_call t req m) =
     (case getInvitesChannel t m of
        (None, m1) \<Rightarrow> (AwaitChannel req None, m1)
      | (Some ch, m1) \<Rightarrow> (AwaitChannel req (Some ch), m1))"
proof (cases "getInvitesChannel_begin t m")
  case (Pair w m1)
  show ?thesis
  proof (cases w)
    case Rejected
    with Pair show ?thesis
      by (intro exI[of _ 0]) (simp add: start_call_def getInvitesChannel_def)
  next
    case (Ready ch)
    with Pair show ?thesis
      by (intro exI[of _ 0]) (simp add: start_call_def getInvitesChannel_def)
  next
    case (Subscribing ch)
    with Pair show ?thesis
      by (intro exI[of _ 1])
         (simp add: start_call_def getInvitesChannel_def getInvitesChannel_resume_def)
  qed
qed

lemma uninterrupted_sendCallCancelled:
  "\<exists>n. drive t n (start_call t (Cancel rs room f) m) =
     (Finished (fst (sendCallCancelled t rs room f m)), snd (sendCallCancelled t rs room f m))"
proof -
  obtain c m1 where g: "getInvitesChannel t m = (c, m1)"
    by (cases "getInvitesChannel t m") auto
  from drive_to_channel[of t "Cancel rs room f" m] g obtain n where
    n: "drive t n (start_call t (Cancel rs room f) m) =
        (AwaitChannel (Cancel rs room f) c, m1)"
    by (cases c) auto
  show ?thesis
  proof (cases c)
    case None
    have "drive t (n + 1) (start_call t (Cancel rs room f) m) =
        drive t 1 (drive t n (start_call t (Cancel rs room f) m))"
      by (rule drive_add)
    with n g None show ?thesis
      by (intro exI[of _ "n + 1"]) (simp add: sendCallCancelled_def)
  next
    case (Some ch)
    from drive_cancels[of t rs room f ch rs m1] obtain k where
      k: "drive t k (send_next t (Cancel rs room f) ch rs m1) =
        (case send_cancels t ch room f rs m1 of
           (Thrown, m') \<Rightarrow> (Finished Returned, inv_note LogError m')
         | (Returned, m') \<Rightarrow> (Finished Returned, m'))" by blast
    have "drive t (n + Suc k) (start_call t (Cancel rs room f) m) =
        drive t (Suc k) (drive t n (start_call t (Cancel rs room f) m))"
      by (rule drive_add)
    with n Some have "drive t (n + Suc k) (start_call t (Cancel rs room f) m) =
        drive t k (send_next t (Cancel rs room f) ch rs m1)"
      by simp
    with k g Some show ?thesis
      by (intro exI[of _ "n + Suc k"])
         (auto simp: sendCallCancelled_def split: prod.splits outcome.splits)
  qed
qed

lemma uninterrupted_sendCallInvite:
  "\<exists>n. drive t n (start_call t (Invite rs payload) m) =
     (Finished (fst (sendCallInvite t rs payload m)), snd (sendCallInvite t rs payload m))"
proof -
  obtain c m1 where g: "getInvitesChannel t m = (c, m1)"
    by (cases "getInvitesChannel t m") auto
  from drive_to_channel[of t "Invite rs payload" m] g obtain n where
    n: "drive t n (start_call t (Invite rs payload) m) =
        (AwaitChannel (Invite rs payload) c, m1)"
    by (cases c) auto
  show ?thesis
  proof (cases c)
    case None
    have "drive t (n + 1) (start_call t (Invite rs payload) m) =
        drive t 1 (drive t n (start_call t (Invite rs payload) m))"
      by (rule drive_add)
    with n g None show ?thesis
      by (intro exI[of _ "n + 1"]) (simp add: sendCallInvite_def)
  next
    case (Some ch)
    from drive_invites[of t rs payload ch rs m1] obtain k where
      k: "drive t k (send_next t (Invite rs payload) ch rs m1) =
     (Finished Returned,
      (let m2 = (case send_invites t ch payload rs m1 of
                   (Thrown, m') \<Rightarrow> inv_note LogError m'
                 | (Returned, m') \<Rightarrow> m')
       in (case inv_call t (InvokePush rs (push_title payload) ''Tap to answer''
                              (''chat-'' @ cip_chatRoomId payload)) m2 of
             (Thrown, m') \<Rightarrow> inv_note LogWarn m'
           | (Returned, m') \<Rightarrow> m')))" by blast
    have "drive t (n + Suc k) (start_call t (Invite rs payload) m) =
        drive t (Suc k) (drive t n (start_call t (Invite rs payload) m))"
      by (rule drive_add)
    with n Some have "drive t (n + Suc k) (start_call t (Invite rs payload) m) =
        drive t k (send_next t (Invite rs payload) ch rs m1)"
      by simp
    with k g Some show ?thesis
      by (intro exI[of _ "n + Suc k"]) (simp add: sendCallInvite_def Let_def)
  qed
qed




section \<open>Creation of peer connections\<close>





lemma connections_made_PcCalls:
  "connections_made (map (\<lambda>i. (PcCall pc (f i), r)) is) = []"
  by (induction "is") simp_all

lemma connections_made_connection_calls:
  "connections_made (connection_calls s n) = [n]"
  by (simp add: connection_calls_def connections_made_PcCalls)

lemma connections_made_concat:
  "connections_made (concat (map (connection_calls s) ns)) = ns"
  by (induction ns) (simp_all add: connections_made_append connections_made_connection_calls)



lemma registered_snoc:
  "registered (us @ [u]) n m = map_set u (n + length us) (registered us n m)"
  by (induction us arbitrary: n m) simp_all












section \<open>Closed connections\<close>

lemma closed_pcs_append: "closed_pcs (l @ l') = closed_pcs l @ closed_pcs l'"
  by (induction l rule: closed_pcs.induct) auto

lemma closed_pcs_single:
  "closed_pcs [(e, r)] = (case e of PcCall pc Close \<Rightarrow> [pc] | _ \<Rightarrow> [])"
  by (cases "[(e, r)]" rule: closed_pcs.cases) auto

lemma called_pcs_append: "called_pcs (l @ l') = called_pcs l @ called_pcs l'"
  by (induction l rule: called_pcs.induct) auto

lemma respects_close_set:
  "set cl = set cl' \<Longrightarrow> respects_close cl l = respects_close cl' l"
proof (induction cl l arbitrary: cl' rule: respects_close.induct)
  case (2 closed pc c r l)
  have "set (if c = Close then pc # closed else closed) =
        set (if c = Close then pc # cl' else cl')"
    using 2(2) by simp
  from 2(1)[OF this] 2(2) show ?case by simp
qed simp_all

lemma respects_close_append:
  "respects_close cl (l @ l') =
     (respects_close cl l \<and> respects_close (closed_pcs l @ cl) l')"
proof (induction cl l rule: respects_close.induct)
  case (2 closed pc c r l)
  have "respects_close (closed_pcs l @ (if c = Close then pc # closed else closed)) l' =
        respects_close (closed_pcs ((PcCall pc c, r) # l) @ closed) l'"
    by (rule respects_close_set) (cases c; auto)
  with 2 show ?case by simp
qed simp_all

lemma respects_close_plain:
  "closed_pcs l = [] \<Longrightarrow> \<forall>pc\<in>set (called_pcs l). pc \<notin> set cl \<Longrightarrow> respects_close cl l"
proof (induction cl l rule: respects_close.induct)
  case (2 closed pc c r l)
  then show ?case by (cases c) auto
qed simp_all

lemma plain_step_refl: "plain_step H st st"
  by (simp add: plain_step_def)

lemma plain_step_trans:
  assumes "plain_step H st s" "plain_step H s s'"
  shows "plain_step H st s'"
proof -
  from assms(1) obtain new where n: "effects s = effects st @ new" "closed_pcs new = []"
    "\<forall>pc\<in>set (called_pcs new). pc \<in> set H \<or> pc \<notin> set (closed_pcs (effects st))"
    unfolding plain_step_def by blast
  from assms(2) obtain new' where n': "effects s' = effects s @ new'" "closed_pcs new' = []"
    "\<forall>pc\<in>set (called_pcs new'). pc \<in> set H \<or> pc \<notin> set (closed_pcs (effects s))"
    unfolding plain_step_def by blast
  have "effects s' = effects st @ (new @ new')" using n(1) n'(1) by simp
  moreover have "closed_pcs (new @ new') = []" using n(2) n'(2) by (simp add: closed_pcs_append)
  moreover have "\<forall>pc\<in>set (called_pcs (new @ new')).
      pc \<in> set H \<or> pc \<notin> set (closed_pcs (effects st))"
    using n n' by (auto simp: called_pcs_append closed_pcs_append)
  ultimately show ?thesis unfolding plain_step_def by blast
qed

lemma plain_step_single:
  assumes "plain_call H st e" "effects s = effects st @ [(e, r)]"
  shows "plain_step H st s"
proof -
  have "closed_pcs [(e, r)] = []"
    using assms(1)
    by (auto simp: plain_call_def closed_pcs_single split: effect.splits pc_call.splits)
  moreover have "\<forall>pc\<in>set (called_pcs [(e, r)]).
      pc \<in> set H \<or> pc \<notin> set (closed_pcs (effects st))"
    using assms(1) by (cases e) (auto simp: plain_call_def)
  ultimately show ?thesis using assms(2) unfolding plain_step_def by blast
qed

lemma plain_step_closed:
  "plain_step H st s \<Longrightarrow> closed_pcs (effects s) = closed_pcs (effects st)"
  by (auto simp: plain_step_def closed_pcs_append)

lemma plain_call_mono:
  "plain_step H st s \<Longrightarrow> plain_call H st e \<Longrightarrow> plain_call H s e"
  by (auto simp: plain_call_def plain_step_closed split: effect.splits)

lemma plain_step_call_api:
  assumes "plain_step H st s" "plain_call H st e"
  shows "plain_step H st (snd (call_api b e s))"
proof -
  have "plain_step H s (snd (call_api b e s))"
    by (rule plain_step_single[OF plain_call_mono[OF assms]]) (simp add: call_api_def Let_def)
  with assms(1) show ?thesis by (rule plain_step_trans)
qed

lemma plain_step_log_note:
  assumes "plain_step H st s" "plain_call H st e"
  shows "plain_step H st (log_note e s)"
proof -
  have "plain_step H s (log_note e s)"
    by (rule plain_step_single[OF plain_call_mono[OF assms]]) (simp add: log_note_def)
  with assms(1) show ?thesis by (rule plain_step_trans)
qed

lemma then_do_cases:
  assumes "fst r = Thrown \<Longrightarrow> Q (snd r)" "fst r = Returned \<Longrightarrow> Q (snd (k (snd r)))"
  shows "Q (snd (then_do r k))"
proof (cases r)
  case (Pair out s)
  show ?thesis
  proof (cases out)
    case Returned
    with Pair assms(2) show ?thesis by (simp add: then_do_def)
  next
    case Thrown
    with Pair assms(1) show ?thesis by (simp add: then_do_def)
  qed
qed

lemma plain_step_then_do:
  assumes "plain_step H st (snd r)" "\<And>s. plain_step H st s \<Longrightarrow> plain_step H st (snd (k s))"
  shows "plain_step H st (snd (then_do r k))"
proof (rule then_do_cases)
  show "plain_step H st (snd r)" by (rule assms(1))
  show "plain_step H st (snd (k (snd r)))" by (rule assms(2)[OF assms(1)])
qed

lemma plain_step_call_each:
  assumes "plain_step H st s" "\<forall>e\<in>set es. plain_call H st e"
  shows "plain_step H st (snd (call_each b es s))"
  using assms
proof (induction es arbitrary: s)
  case Nil
  then show ?case by simp
next
  case (Cons e es)
  show ?case
    unfolding call_each.simps
    by (rule plain_step_then_do) (use Cons in \<open>auto intro: plain_step_call_api\<close>)
qed

lemma plain_step_channel_send:
  assumes "plain_step H st s"
  shows "plain_step H st (snd (channel_send b sig s))"
  using assms
  by (cases "channelRef s") (auto simp: channel_send_def plain_call_def intro: plain_step_call_api)

lemma plain_step_frame:
  assumes "plain_step H st s" "effects s' = effects s"
  shows "plain_step H st s'"
  using assms by (simp add: plain_step_def)

lemma safe_step_refl: "safe_step st st"
  by (simp add: safe_step_def)

lemma safe_step_trans:
  assumes "safe_step st s" "safe_step s s'"
  shows "safe_step st s'"
proof -
  from assms(1) obtain new where n: "effects s = effects st @ new"
    "respects_close (closed_pcs (effects st)) new"
    unfolding safe_step_def by blast
  from assms(2) obtain new' where n': "effects s' = effects s @ new'"
    "respects_close (closed_pcs (effects s)) new'"
    unfolding safe_step_def by blast
  have "respects_close (closed_pcs new @ closed_pcs (effects st)) new' =
        respects_close (closed_pcs (effects s)) new'"
    by (rule respects_close_set) (auto simp: n(1) closed_pcs_append)
  with n n' have "respects_close (closed_pcs (effects st)) (new @ new')"
    by (simp add: respects_close_append)
  moreover have "effects s' = effects st @ (new @ new')" using n(1) n'(1) by simp
  ultimately show ?thesis unfolding safe_step_def by blast
qed

lemma plain_safe_step: "plain_step [] st s \<Longrightarrow> safe_step st s"
  unfolding plain_step_def safe_step_def
  by (auto intro: respects_close_plain)

lemma plain_step_registry_ok:
  assumes "plain_step H st s" "registry_ok st" "peerConnectionsRef s = peerConnectionsRef st"
    "next_pc s = next_pc st"
  shows "registry_ok s"
  using assms by (simp add: registry_ok_def plain_step_closed)

lemma handler_step_refl: "handler_step H st st"
  by (simp add: handler_step_def plain_step_refl)

lemma handler_step_call_api:
  assumes "handler_step H st s" "plain_call H st e"
  shows "handler_step H st (snd (call_api b e s))"
  using assms plain_step_call_api[of H st s e b]
  by (simp add: handler_step_def) (simp add: call_api_def Let_def)

lemma handler_step_log_note:
  assumes "handler_step H st s" "plain_call H st e"
  shows "handler_step H st (log_note e s)"
  using assms plain_step_log_note[of H st s e]
  by (simp add: handler_step_def) (simp add: log_note_def)

lemma handler_step_then_do:
  assumes "handler_step H st (snd r)"
    "\<And>s. handler_step H st s \<Longrightarrow> handler_step H st (snd (k s))"
  shows "handler_step H st (snd (then_do r k))"
proof (rule then_do_cases)
  show "handler_step H st (snd r)" by (rule assms(1))
  show "handler_step H st (snd (k (snd r)))" by (rule assms(2)[OF assms(1)])
qed

lemma handler_step_call_each:
  assumes "handler_step H st s" "\<forall>e\<in>set es. plain_call H st e"
  shows "handler_step H st (snd (call_each b es s))"
  using assms
proof (induction es arbitrary: s)
  case Nil
  then show ?case by simp
next
  case (Cons e es)
  show ?case
    unfolding call_each.simps
    by (rule handler_step_then_do) (use Cons in \<open>auto intro: handler_step_call_api\<close>)
qed

lemma handler_step_channel_send:
  assumes "handler_step H st s"
  shows "handler_step H st (snd (channel_send b sig s))"
  using assms
  by (cases "channelRef s")
     (auto simp: channel_send_def plain_call_def intro: handler_step_call_api)

lemma handler_step_frame:
  assumes "handler_step H st s" "effects s' = effects s"
    "peerConnectionsRef s' = peerConnectionsRef s" "next_pc s' = next_pc s"
  shows "handler_step H st s'"
  using assms by (simp add: handler_step_def plain_step_def)

lemma handler_step_trans:
  "handler_step H st s \<Longrightarrow> handler_step H s s' \<Longrightarrow> handler_step H st s'"
  by (auto simp: handler_step_def intro: plain_step_trans)

lemma handler_step_registry_ok:
  "handler_step H st s \<Longrightarrow> registry_ok st \<Longrightarrow> registry_ok s"
  by (auto simp: handler_step_def intro: plain_step_registry_ok)

lemma registered_call:
  assumes "registry_ok st" "pc \<in> snd ` set (peerConnectionsRef st)" "c \<noteq> Close"
  shows "plain_call H st (PcCall pc c)"
  using assms by (auto simp: registry_ok_def plain_call_def)

lemma looked_up_call:
  assumes "registry_ok st" "map_of (peerConnectionsRef st) u = Some pc" "c \<noteq> Close"
  shows "plain_call H st (PcCall pc c)"
proof -
  from assms(2) have "pc \<in> snd ` set (peerConnectionsRef st)"
    by (force dest: map_of_SomeD)
  from registered_call[OF assms(1) this assms(3)] show ?thesis .
qed

lemma handler_step_handleOffer:
  assumes "registry_ok st"
  shows "handler_step [] st (handleOffer p b u offer st)"
proof (cases "map_of (peerConnectionsRef st) u")
  case None
  then show ?thesis by (simp add: handleOffer_def handler_step_refl)
next
  case (Some pc)
  note safe = looked_up_call[OF assms Some]
  show ?thesis
    unfolding handleOffer_def Some option.case
    by (intro handler_step_then_do handler_step_call_api handler_step_channel_send
        handler_step_refl safe) simp_all
qed

lemma handler_step_handleAnswer:
  assumes "registry_ok st"
  shows "handler_step [] st (handleAnswer b u answer st)"
proof (cases "map_of (peerConnectionsRef st) u")
  case None
  then show ?thesis by (simp add: handleAnswer_def handler_step_refl)
next
  case (Some pc)
  note safe = looked_up_call[OF assms Some]
  show ?thesis
    unfolding handleAnswer_def Some option.case
    by (intro handler_step_call_api handler_step_refl safe) simp_all
qed

lemma handler_step_handleIceCandidate:
  assumes "registry_ok st"
  shows "handler_step [] st (handleIceCandidate b u c st)"
proof (cases "map_of (peerConnectionsRef st) u")
  case None
  then show ?thesis by (simp add: handleIceCandidate_def handler_step_refl)
next
  case (Some pc)
  note safe = looked_up_call[OF assms Some]
  show ?thesis
    unfolding handleIceCandidate_def Some option.case
    by (intro handler_step_call_api handler_step_refl safe) simp_all
qed

lemma handler_step_on_broadcast:
  assumes "registry_ok st"
  shows "handler_step [] st (on_broadcast p b sig st)"
  using assms
  by (cases sig)
     (auto simp: plain_call_def intro: handler_step_handleOffer handler_step_handleAnswer
        handler_step_handleIceCandidate handler_step_refl handler_step_log_note)

lemma handler_step_handleOffer_begin:
  assumes "registry_ok st"
  shows "handler_step [] st (snd (handleOffer_begin b u offer st))"
proof (cases "map_of (peerConnectionsRef st) u")
  case None
  then show ?thesis by (simp add: handleOffer_begin_def handler_step_refl)
next
  case (Some pc)
  have "handler_step [] st (snd (call_api b (PcCall pc (SetRemoteDescription (SdpOffer offer))) st))"
    by (intro handler_step_call_api handler_step_refl looked_up_call[OF assms Some]) simp
  then show ?thesis
    by (cases "call_api b (PcCall pc (SetRemoteDescription (SdpOffer offer))) st")
       (auto simp: handleOffer_begin_def Some split: outcome.splits)
qed

lemma handler_step_startCall_next:
  assumes "handler_step H st s" "registry_ok st"
  shows "handler_step H st (snd (startCall_next b i s))"
proof (cases "max i (cleared s) - cleared s < length (peerConnectionsRef s)")
  case False
  with assms(1) show ?thesis by (simp add: startCall_next_def Let_def)
next
  case True
  obtain u pc where x: "peerConnectionsRef s ! (max i (cleared s) - cleared s) = (u, pc)"
    by (cases "peerConnectionsRef s ! (max i (cleared s) - cleared s)")
  with True have "(u, pc) \<in> set (peerConnectionsRef s)"
    by (metis nth_mem)
  then have "pc \<in> snd ` set (peerConnectionsRef st)"
    using assms(1) by (force simp: handler_step_def)
  from registered_call[OF assms(2) this]
  have "handler_step H st (snd (call_api b (PcCall pc CreateOffer) s))"
    by (intro handler_step_call_api assms(1)) simp
  with True x show ?thesis
    by (cases "call_api b (PcCall pc CreateOffer) s")
       (auto simp: startCall_next_def Let_def split: outcome.splits)
qed

lemma held_call: "pc \<in> set H \<Longrightarrow> c \<noteq> Close \<Longrightarrow> plain_call H st (PcCall pc c)"
  by (simp add: plain_call_def)

lemma handler_step_resume_task:
  assumes "registry_ok st"
  shows "handler_step (held tk) st (snd (resume_task p b tk st))"
proof (cases tk)
  case (Offer_applied u pc)
  have "handler_step [pc] st (snd (call_api b (PcCall pc CreateAnswer) st))"
    by (intro handler_step_call_api handler_step_refl held_call) simp_all
  with Offer_applied show ?thesis
    by (cases "call_api b (PcCall pc CreateAnswer) st") (auto split: outcome.splits)
next
  case (Offer_answered u pc answer)
  have "handler_step [pc] st
      (snd (call_api b (PcCall pc (SetLocalDescription (SdpAnswer answer))) st))"
    by (intro handler_step_call_api handler_step_refl held_call) simp_all
  with Offer_answered show ?thesis
    by (cases "call_api b (PcCall pc (SetLocalDescription (SdpAnswer answer))) st")
       (auto split: outcome.splits)
next
  case (Offer_set u pc answer)
  then show ?thesis
    by (simp add: handler_step_channel_send handler_step_refl)
next
  case (Start_offered i u pc offer)
  have "handler_step [pc] st
      (snd (call_api b (PcCall pc (SetLocalDescription (SdpOffer offer))) st))"
    by (intro handler_step_call_api handler_step_refl held_call) simp_all
  with Start_offered show ?thesis
    by (cases "call_api b (PcCall pc (SetLocalDescription (SdpOffer offer))) st")
       (auto split: outcome.splits)
next
  case (Start_set i u pc offer)
  have s: "handler_step [pc] st (snd (channel_send b (Offer (userId p) u offer) st))"
    by (intro handler_step_channel_send handler_step_refl)
  from handler_step_startCall_next[OF s assms, of b i] s Start_set show ?thesis
    by (cases "channel_send b (Offer (userId p) u offer) st") (auto split: outcome.splits)
next
  case Done
  then show ?thesis by (simp add: handler_step_refl)
qed

lemma handler_step_catch: "handler_step H st s \<Longrightarrow> handler_step H st (initializeCall_catch s)"
  unfolding initializeCall_catch_def
  by (intro handler_step_log_note) (simp_all add: plain_call_def)

lemma handler_step_run_effect:
  "handler_step [] st (snd (run_effect p b captured st))"
proof -
  let ?s0 = "st\<lparr>effect_localStream := captured\<rparr>"
  have s0: "handler_step [] st ?s0"
    by (rule handler_step_frame[OF handler_step_refl]) simp_all
  have "handler_step [] st (snd (call_api b (GetUserMedia (callType p = video)) ?s0))"
    by (rule handler_step_call_api[OF s0]) (simp add: plain_call_def)
  then have s1: "handler_step [] st (initializeCall_start p b ?s0)"
    by (cases "call_api b (GetUserMedia (callType p = video)) ?s0")
       (auto simp: initializeCall_start_def handler_step_catch split: outcome.splits)
  show ?thesis
    unfolding run_effect_def setupSignaling_def
  proof (rule handler_step_then_do)
    show "handler_step [] st
        (snd (call_api b (ChannelSubscribe (channel_name p)) (initializeCall_start p b ?s0)))"
      by (rule handler_step_call_api[OF s1]) (simp add: plain_call_def)
    fix s
    assume "handler_step [] st s"
    then show "handler_step [] st (snd (Returned, s\<lparr>channelRef := Some (channel_name p)\<rparr>))"
      by (auto intro: handler_step_frame)
  qed
qed

lemma handler_step_onicecandidate:
  "handler_step [] st (onicecandidate p b u c st)"
  by (cases c) (simp_all add: onicecandidate_def handler_step_refl handler_step_channel_send)

lemma handler_step_small:
  "handler_step [] st (ontrack u rs st)"
  "handler_step [] st (toggleMute st)"
  "handler_step [] st (toggleVideo st)"
  "handler_step [] st (keep_react_state old st)"
  by (rule handler_step_frame[OF handler_step_refl];
      simp add: ontrack_def toggleMute_def toggleVideo_def keep_react_state_def Let_def
        split: option.splits)+

lemma handler_step_keep:
  "handler_step H st s \<Longrightarrow> handler_step H st (keep_react_state old s)"
  by (erule handler_step_frame) (simp_all add: keep_react_state_def)

lemma handler_step_settle:
  "handler_step H st s \<Longrightarrow> handler_step H st (settle lc old s)"
  by (simp add: settle_def handler_step_keep)

lemma safe_step_frame: "safe_step st s \<Longrightarrow> effects s' = effects s \<Longrightarrow> safe_step st s'"
  by (simp add: safe_step_def)

lemma registry_ok_frame:
  assumes "registry_ok s" "effects s' = effects s" "next_pc s' = next_pc s"
    "peerConnectionsRef s' = peerConnectionsRef s"
  shows "registry_ok s'"
  using assms by (simp add: registry_ok_def)

lemma handler_ok:
  "registry_ok st \<Longrightarrow> handler_step [] st s \<Longrightarrow> safe_step st s \<and> registry_ok s"
  by (auto simp: handler_step_def intro: plain_safe_step plain_step_registry_ok)

lemma ok_trans:
  assumes "safe_step st s \<and> registry_ok s" "registry_ok s \<Longrightarrow> safe_step s s' \<and> registry_ok s'"
  shows "safe_step st s' \<and> registry_ok s'"
  using assms by (auto intro: safe_step_trans)

lemma snd_map_set: "snd ` set (map_set k v m) \<subseteq> insert v (snd ` set m)"
  by (induction k v m rule: map_set.induct) auto

lemma distinct_map_set:
  "distinct (map snd m) \<Longrightarrow> v \<notin> snd ` set m \<Longrightarrow> distinct (map snd (map_set k v m))"
proof (induction k v m rule: map_set.induct)
  case (1 k v)
  then show ?case by simp
next
  case (2 k v k' v' m)
  show ?case
  proof (cases "k' = k")
    case True
    with 2 show ?thesis by auto
  next
    case False
    with 2 have d: "distinct (map snd (map_set k v m))" by simp
    have "v' \<notin> snd ` set (map_set k v m)"
      using snd_map_set[of k v m] 2(2,3) by auto
    with d False show ?thesis by simp
  qed
qed

lemma createPeerConnection_step:
  assumes ok: "registry_ok st"
  shows "plain_step [] st (snd (createPeerConnection b u stream st)) \<and>
         registry_ok (snd (createPeerConnection b u stream st))"
proof -
  let ?n = "next_pc st"
  let ?st1 = "st\<lparr>next_pc := Suc ?n\<rparr>"
  let ?Q = "\<lambda>s. plain_step [] st s \<and> registry_ok s"
  have fresh: "?n \<notin> set (closed_pcs (effects st))" "?n \<notin> snd ` set (peerConnectionsRef st)"
    using ok by (auto simp: registry_ok_def)
  have e1: "handler_step [] ?st1 (snd (call_api b (NewPeerConnection ?n) ?st1))"
    by (rule handler_step_call_api[OF handler_step_refl]) (simp add: plain_call_def)
  have add: "handler_step [] ?st1 (snd (addTracks b ?n stream s))" if "handler_step [] ?st1 s" for s
    unfolding addTracks_def
    by (rule handler_step_call_each[OF that]) (use fresh in \<open>auto simp: plain_call_def\<close>)
  have thrown: "?Q s" if "handler_step [] ?st1 s" for s
  proof -
    from that have c: "closed_pcs (effects s) = closed_pcs (effects st)"
      and n: "next_pc s = Suc ?n" and m: "peerConnectionsRef s = peerConnectionsRef st"
      and p: "plain_step [] ?st1 s"
      by (auto simp: handler_step_def plain_step_closed)
    from p have "plain_step [] st s" by (simp add: plain_step_def)
    moreover have "registry_ok s"
      using ok c n m by (auto simp: registry_ok_def less_Suc_eq)
    ultimately show ?thesis by simp
  qed
  have fin: "?Q (s\<lparr>peerConnectionsRef := map_set u ?n (peerConnectionsRef s)\<rparr>)"
    if "handler_step [] ?st1 s" for s
  proof -
    from that have c: "closed_pcs (effects s) = closed_pcs (effects st)"
      and n: "next_pc s = Suc ?n" and m: "peerConnectionsRef s = peerConnectionsRef st"
      and p: "plain_step [] ?st1 s"
      by (auto simp: handler_step_def plain_step_closed)
    from p have "plain_step [] st (s\<lparr>peerConnectionsRef := map_set u ?n (peerConnectionsRef s)\<rparr>)"
      by (simp add: plain_step_def)
    moreover have "distinct (map snd (map_set u ?n (peerConnectionsRef st)))"
      using ok fresh(2) by (intro distinct_map_set) (auto simp: registry_ok_def)
    moreover have "\<forall>pc\<in>snd ` set (map_set u ?n (peerConnectionsRef st)).
        pc < Suc ?n \<and> pc \<notin> set (closed_pcs (effects st))"
    proof
      fix pc
      assume "pc \<in> snd ` set (map_set u ?n (peerConnectionsRef st))"
      with snd_map_set[of u ?n "peerConnectionsRef st"]
      have "pc = ?n \<or> pc \<in> snd ` set (peerConnectionsRef st)" by blast
      then show "pc < Suc ?n \<and> pc \<notin> set (closed_pcs (effects st))"
        using ok fresh(1) unfolding registry_ok_def by auto
    qed
    moreover have "\<forall>pc\<in>set (closed_pcs (effects st)). pc < Suc ?n"
      using ok by (auto simp: registry_ok_def less_Suc_eq)
    ultimately show ?thesis
      using c n m by (simp add: registry_ok_def)
  qed
  obtain r1 s1 where c1: "call_api b (NewPeerConnection ?n) ?st1 = (r1, s1)"
    by (cases "call_api b (NewPeerConnection ?n) ?st1") auto
  with e1 have h1: "handler_step [] ?st1 s1" by simp
  obtain r2 s2 where c2: "addTracks b ?n stream s1 = (r2, s2)"
    by (cases "addTracks b ?n stream s1") auto
  with add[OF h1] have h2: "handler_step [] ?st1 s2" by simp
  show ?thesis
  proof (cases r1)
    case Thrown
    with c1 thrown[OF h1] show ?thesis
      by (simp add: createPeerConnection_def Let_def then_do_simps)
  next
    case Returned
    show ?thesis
    proof (cases r2)
      case Thrown
      with c1 c2 Returned thrown[OF h2] show ?thesis
        by (simp add: createPeerConnection_def Let_def then_do_simps)
    next
      case r2: Returned
      with c1 c2 Returned fin[OF h2] show ?thesis
        by (simp add: createPeerConnection_def Let_def then_do_simps)
    qed
  qed
qed

lemma createPeerConnections_step:
  "registry_ok st \<Longrightarrow>
   plain_step [] st (snd (createPeerConnections p b stream ps st)) \<and>
   registry_ok (snd (createPeerConnections p b stream ps st))"
proof (induction ps arbitrary: st)
  case Nil
  then show ?case by (simp add: plain_step_refl)
next
  case (Cons u ps)
  show ?case
  proof (cases "u = userId p")
    case True
    with Cons show ?thesis by simp
  next
    case False
    obtain r s1 where c: "createPeerConnection b u stream st = (r, s1)"
      by (cases "createPeerConnection b u stream st") auto
    with createPeerConnection_step[OF Cons.prems, of b u stream]
    have s1: "plain_step [] st s1" "registry_ok s1" by simp_all
    show ?thesis
    proof (cases r)
      case Thrown
      with c False s1 show ?thesis by (simp add: then_do_simps)
    next
      case Returned
      from Cons.IH[OF s1(2)] s1(1)
      have "plain_step [] st (snd (createPeerConnections p b stream ps s1))"
        and "registry_ok (snd (createPeerConnections p b stream ps s1))"
        by (auto intro: plain_step_trans)
      with c False Returned show ?thesis by (simp add: then_do_simps)
    qed
  qed
qed

lemma plain_step_catch: "plain_step H st s \<Longrightarrow> plain_step H st (initializeCall_catch s)"
  unfolding initializeCall_catch_def
  by (intro plain_step_log_note) (simp_all add: plain_call_def)

lemma registry_ok_catch: "registry_ok s \<Longrightarrow> registry_ok (initializeCall_catch s)"
  using handler_step_registry_ok[OF handler_step_catch[OF handler_step_refl]] .

lemma initializeCall_resume_step:
  assumes "registry_ok st"
  shows "plain_step [] st (initializeCall_resume p b res st) \<and>
         registry_ok (initializeCall_resume p b res st)"
proof (cases res)
  case None
  with assms show ?thesis
    by (simp add: initializeCall_resume_def registry_ok_catch plain_step_catch plain_step_refl)
next
  case (Some stream)
  let ?s0 = "st\<lparr>localStream := Some stream\<rparr>"
  have s0: "registry_ok ?s0"
    using assms by (simp add: registry_ok_def)
  obtain r st' where c: "createPeerConnections p b stream (participants p) ?s0 = (r, st')"
    by (cases "createPeerConnections p b stream (participants p) ?s0") auto
  with createPeerConnections_step[OF s0, of p b stream "participants p"]
  have "plain_step [] ?s0 st'" and ok: "registry_ok st'" by simp_all
  then have pl: "plain_step [] st st'" by (simp add: plain_step_def)
  show ?thesis
  proof (cases r)
    case Returned
    with Some c ok pl show ?thesis
      by (simp add: initializeCall_resume_def registry_ok_def plain_step_def)
  next
    case Thrown
    with Some c registry_ok_catch[OF ok] plain_step_catch[OF pl] show ?thesis
      by (simp add: initializeCall_resume_def)
  qed
qed

lemma close_loop:
  assumes nt: "\<forall>h pc. \<not> throws b h (PcCall pc Close)"
  shows "call_each b (close_calls m) s =
     (Returned, s\<lparr>effects := effects s @ map (\<lambda>(u, pc). (PcCall pc Close, Returned)) m\<rparr>)"
proof (induction m arbitrary: s)
  case Nil
  then show ?case by (simp add: close_calls_def)
next
  case (Cons x m)
  obtain u pc where x: "x = (u, pc)" by (cases x)
  have c: "call_api b (PcCall pc Close) s =
      (Returned, s\<lparr>effects := effects s @ [(PcCall pc Close, Returned)]\<rparr>)"
    using nt by (simp add: call_api_def)
  have "call_each b (close_calls (x # m)) s =
      call_each b (close_calls m) (s\<lparr>effects := effects s @ [(PcCall pc Close, Returned)]\<rparr>)"
    using c by (simp add: close_calls_def x then_do_simps)
  then show ?case by (simp add: Cons.IH x)
qed

lemma closed_pcs_closes:
  "closed_pcs (map (\<lambda>(u, pc). (PcCall pc Close, r)) m) = map snd m"
  by (induction m) auto

lemma respects_close_closes:
  "distinct (map snd m) \<Longrightarrow> \<forall>pc\<in>snd ` set m. pc \<notin> set cl \<Longrightarrow>
   respects_close cl (map (\<lambda>(u, pc). (PcCall pc Close, r)) m)"
proof (induction m arbitrary: cl)
  case Nil
  then show ?case by simp
next
  case (Cons x m)
  obtain u pc where x: "x = (u, pc)" by (cases x)
  have "respects_close (pc # cl) (map (\<lambda>(u, pc). (PcCall pc Close, r)) m)"
    by (rule Cons.IH) (use Cons.prems x in \<open>auto\<close>)
  with Cons.prems show ?case by (simp add: x)
qed

lemma cleanup_step:
  assumes nt: "\<forall>h pc. \<not> throws b h (PcCall pc Close)" and ok: "registry_ok st"
  shows "safe_step st (snd (cleanup b ls st)) \<and> registry_ok (snd (cleanup b ls st))"
proof -
  obtain r1 s1 where c1: "call_each b (stop_calls ls) st = (r1, s1)"
    by (cases "call_each b (stop_calls ls) st") auto
  have "handler_step [] st (snd (call_each b (stop_calls ls) st))"
    by (rule handler_step_call_each[OF handler_step_refl])
       (auto simp: stop_calls_def plain_call_def split: option.splits)
  with c1 have h1: "handler_step [] st s1" by simp
  note q1 = handler_ok[OF ok h1]
  show ?thesis
  proof (cases r1)
    case Thrown
    with c1 q1 show ?thesis by (simp add: cleanup_def then_do_simps)
  next
    case Returned
    let ?m = "peerConnectionsRef s1"
    let ?closes = "map (\<lambda>(u, pc). (PcCall pc Close, Returned)) ?m"
    let ?s2 = "s1\<lparr>effects := effects s1 @ ?closes\<rparr>"
    let ?s3 = "?s2\<lparr>peerConnectionsRef := [], cleared := cleared ?s2 + length ?m\<rparr>"
    from q1 have ok1: "registry_ok s1" by simp
    have c2: "call_each b (close_calls ?m) s1 = (Returned, ?s2)"
      by (rule close_loop[OF nt])
    have "respects_close (closed_pcs (effects s1)) ?closes"
      by (rule respects_close_closes) (use ok1 in \<open>auto simp: registry_ok_def\<close>)
    then have "safe_step s1 ?s3" by (auto simp: safe_step_def)
    moreover have "registry_ok ?s3"
      using ok1 by (auto simp: registry_ok_def closed_pcs_append closed_pcs_closes)
    ultimately have q3: "safe_step st ?s3 \<and> registry_ok ?s3"
      using q1 by (auto intro: safe_step_trans)
    obtain r4 s4 where c4: "call_each b (unsubscribe_calls (channelRef ?s2)) ?s3 = (r4, s4)"
      by (cases "call_each b (unsubscribe_calls (channelRef ?s2)) ?s3") auto
    have "handler_step [] ?s3 (snd (call_each b (unsubscribe_calls (channelRef ?s2)) ?s3))"
      by (rule handler_step_call_each[OF handler_step_refl])
         (auto simp: unsubscribe_calls_def plain_call_def split: option.splits)
    with c4 have h4: "handler_step [] ?s3 s4" by simp
    from q3 have ok3: "registry_ok ?s3" by simp
    have q4: "safe_step st s4 \<and> registry_ok s4"
      by (rule ok_trans[OF q3]) (rule handler_ok[OF ok3 h4])
    have q5: "safe_step st (s4\<lparr>localStream := None, remoteStreams := []\<rparr>) \<and>
        registry_ok (s4\<lparr>localStream := None, remoteStreams := []\<rparr>)"
      using q4 by (auto intro: safe_step_frame registry_ok_frame)
    have "cleanup b ls st =
        (case r4 of Returned \<Rightarrow> (Returned, s4\<lparr>localStream := None, remoteStreams := []\<rparr>)
                  | Thrown \<Rightarrow> (Thrown, s4))"
      using c1 Returned c2 c4 by (cases r4) (simp_all add: cleanup_def then_do_simps)
    with q4 q5 show ?thesis by (cases r4) simp_all
  qed
qed

lemma endCall_step:
  assumes nt: "\<forall>h pc. \<not> throws b h (PcCall pc Close)" and ok: "registry_ok st"
  shows "safe_step st (snd (endCall p b st)) \<and> registry_ok (snd (endCall p b st))"
proof -
  obtain r1 s1 where c1: "channel_send b (CallEnded (userId p) (chatRoomId p)) st = (r1, s1)"
    by (cases "channel_send b (CallEnded (userId p) (chatRoomId p)) st") auto
  with handler_step_channel_send[OF handler_step_refl, of "[]" st b "CallEnded (userId p) (chatRoomId p)"]
  have h1: "handler_step [] st s1" by simp
  note q1 = handler_ok[OF ok h1]
  then have ok1: "registry_ok s1" by simp
  obtain r2 s2 where c2: "cleanup b (localStream s1) s1 = (r2, s2)"
    by (cases "cleanup b (localStream s1) s1") auto
  with cleanup_step[OF nt ok1, of "localStream s1"]
  have "safe_step s1 s2 \<and> registry_ok s2" by simp
  with q1 have q2: "safe_step st s2 \<and> registry_ok s2" by (auto intro: safe_step_trans)
  then have ok2: "registry_ok s2" by simp
  have "handler_step [] s2 (log_note OnEndCall s2)"
    by (rule handler_step_log_note[OF handler_step_refl]) (simp add: plain_call_def)
  from ok_trans[OF q2 handler_ok[OF _ this]]
  have q3: "safe_step st (log_note OnEndCall s2) \<and> registry_ok (log_note OnEndCall s2)" by simp
  show ?thesis
    using c1 c2 q1 q2 q3 by (cases r1; cases r2) (simp_all add: endCall_def then_do_simps)
qed

lemma settle_frame:
  "effects (settle lc old new) = effects new"
  "next_pc (settle lc old new) = next_pc new"
  "peerConnectionsRef (settle lc old new) = peerConnectionsRef new"
  "effects (keep_react_state old new) = effects new"
  "next_pc (keep_react_state old new) = next_pc new"
  "peerConnectionsRef (keep_react_state old new) = peerConnectionsRef new"
  by (simp_all add: settle_def keep_react_state_def)

lemma ok_frame:
  assumes "safe_step st s \<and> registry_ok s" "effects s' = effects s" "next_pc s' = next_pc s"
    "peerConnectionsRef s' = peerConnectionsRef s"
  shows "safe_step st s' \<and> registry_ok s'"
  using assms by (auto intro: safe_step_frame registry_ok_frame)

lemma plain_ok:
  "registry_ok st \<Longrightarrow> plain_step [] st s \<and> registry_ok s \<Longrightarrow> safe_step st s \<and> registry_ok s"
  by (auto intro: plain_safe_step)

lemma ok_refl: "registry_ok st \<Longrightarrow> safe_step st st \<and> registry_ok st"
  by (simp add: safe_step_refl)

lemma act_event_step:
  assumes nt: "\<forall>h pc. \<not> throws b h (PcCall pc Close)" and ok: "registry_ok (core s)"
  shows "safe_step (core s) (core (act p b (Ev e) s)) \<and> registry_ok (core (act p b (Ev e) s))"
proof (cases e)
  case Mount
  obtain r c where c: "run_effect p b (localStream (core s)) (core s) = (r, c)"
    by (cases "run_effect p b (localStream (core s)) (core s)") auto
  with handler_step_run_effect[of "core s" p b "localStream (core s)"]
  have "handler_step [] (core s) c" by simp
  from handler_ok[OF ok this] c Mount ok_refl[OF ok] show ?thesis
    by (cases r) simp_all
next
  case (MediaResolved stream)
  let ?c = "settle (lifecycle s) (core s) (initializeCall_resume p b (Some stream) (core s))"
  have q: "safe_step (core s) ?c \<and> registry_ok ?c"
    by (rule ok_frame[OF plain_ok[OF ok initializeCall_resume_step[OF ok]]])
       (simp_all add: settle_frame)
  then have okc: "registry_ok ?c" by simp
  obtain t c' where c': "startCall_next b 0 ?c = (t, c')"
    by (cases "startCall_next b 0 ?c") auto
  with handler_step_startCall_next[OF handler_step_refl okc, of "[]" b 0]
  have "handler_step [] ?c c'" by simp
  from ok_trans[OF q handler_ok[OF _ this]]
  have q': "safe_step (core s) c' \<and> registry_ok c'" by simp
  from MediaResolved q q' c' ok_refl[OF ok] show ?thesis
    by (auto simp: Let_def)
next
  case MediaRejected
  have "safe_step (core s) (settle (lifecycle s) (core s) (initializeCall_resume p b None (core s))) \<and>
      registry_ok (settle (lifecycle s) (core s) (initializeCall_resume p b None (core s)))"
    by (rule ok_frame[OF plain_ok[OF ok initializeCall_resume_step[OF ok]]])
       (simp_all add: settle_frame)
  with MediaRejected ok_refl[OF ok] show ?thesis by simp
next
  case DepsChanged
  obtain r1 c1 where c1: "cleanup b (effect_localStream (core s)) (core s) = (r1, c1)"
    by (cases "cleanup b (effect_localStream (core s)) (core s)") auto
  with cleanup_step[OF nt ok, of "effect_localStream (core s)"]
  have q1: "safe_step (core s) c1 \<and> registry_ok c1" by simp
  then have ok1: "registry_ok c1" by simp
  obtain r2 c2 where c2: "run_effect p b (localStream (core s)) c1 = (r2, c2)"
    by (cases "run_effect p b (localStream (core s)) c1") auto
  with handler_step_run_effect[of c1 p b "localStream (core s)"]
  have "handler_step [] c1 c2" by simp
  from ok_trans[OF q1 handler_ok[OF _ this]]
  have q2: "safe_step (core s) c2 \<and> registry_ok c2" by simp
  then have ok2: "registry_ok c2" by simp
  have q3: "safe_step (core s) (keep_react_state c2 (snd (cleanup b (effect_localStream c2) c2))) \<and>
      registry_ok (keep_react_state c2 (snd (cleanup b (effect_localStream c2) c2)))"
    by (rule ok_frame[OF ok_trans[OF q2 cleanup_step[OF nt]]]) (simp_all add: settle_frame)
  from DepsChanged c1 c2 q2 q3 ok_refl[OF ok] show ?thesis
    by (cases r2) simp_all
next
  case Unmount
  have "safe_step (core s)
        (keep_react_state (core s) (snd (cleanup b (effect_localStream (core s)) (core s)))) \<and>
      registry_ok
        (keep_react_state (core s) (snd (cleanup b (effect_localStream (core s)) (core s))))"
    by (rule ok_frame[OF cleanup_step[OF nt ok]]) (simp_all add: settle_frame)
  with Unmount ok_refl[OF ok] show ?thesis by simp
next
  case (Broadcast sig)
  show ?thesis
  proof (cases sig)
    case (Offer u to_id offer)
    obtain t c where c: "handleOffer_begin b u offer (core s) = (t, c)"
      by (cases "handleOffer_begin b u offer (core s)") auto
    with handler_step_handleOffer_begin[OF ok, of b u offer]
    have "handler_step [] (core s) c" by simp
    from handler_ok[OF ok this] c Broadcast Offer ok_refl[OF ok] show ?thesis by simp
  next
    case (Answer u to_id answer)
    with Broadcast handler_ok[OF ok handler_step_on_broadcast[OF ok, of p b sig]] ok_refl[OF ok]
    show ?thesis by simp
  next
    case (IceCandidate u to_id candidate)
    with Broadcast handler_ok[OF ok handler_step_on_broadcast[OF ok, of p b sig]] ok_refl[OF ok]
    show ?thesis by simp
  next
    case (CallEnded u room)
    with Broadcast handler_ok[OF ok handler_step_on_broadcast[OF ok, of p b sig]] ok_refl[OF ok]
    show ?thesis by simp
  qed
next
  case (OnTrack u rs)
  have "safe_step (core s) (settle (lifecycle s) (core s) (ontrack u rs (core s))) \<and>
      registry_ok (settle (lifecycle s) (core s) (ontrack u rs (core s)))"
    by (rule handler_ok[OF ok handler_step_settle[OF handler_step_small(1)]])
  with OnTrack ok_refl[OF ok] show ?thesis by simp
next
  case (OnIceCandidate u c)
  with handler_ok[OF ok handler_step_onicecandidate[of "core s" p b u c]] ok_refl[OF ok]
  show ?thesis by simp
next
  case ToggleMute
  with handler_ok[OF ok handler_step_small(2)[of "core s"]] ok_refl[OF ok]
  show ?thesis by simp
next
  case ToggleVideo
  with handler_ok[OF ok handler_step_small(3)[of "core s"]] ok_refl[OF ok]
  show ?thesis by simp
next
  case EndCall
  with endCall_step[OF nt ok, of p] ok_refl[OF ok] show ?thesis by simp
qed

lemma act_resume_step:
  assumes ok: "registry_ok (core s)"
  shows "handler_step (holder s (Resume i)) (core s) (core (act p b (Resume i) s))"
proof (cases "i < length (tasks s)")
  case False
  then show ?thesis by (simp add: handler_step_refl)
next
  case True
  obtain t c where c: "resume_task p b (tasks s ! i) (core s) = (t, c)"
    by (cases "resume_task p b (tasks s ! i) (core s)") auto
  with handler_step_resume_task[OF ok, of "tasks s ! i" p b] True show ?thesis by simp
qed

lemma registry_ok_act:
  assumes nt: "\<forall>h pc. \<not> throws b h (PcCall pc Close)" and ok: "registry_ok (core s)"
  shows "registry_ok (core (act p b a s))"
proof (cases a)
  case (Ev e)
  with act_event_step[OF nt ok, of p e] show ?thesis by simp
next
  case (Resume i)
  with handler_step_registry_ok[OF act_resume_step[OF ok, of i p b] ok] show ?thesis by simp
qed

lemma registry_ok_sched:
  assumes nt: "\<forall>h pc. \<not> throws b h (PcCall pc Close)"
  shows "registry_ok (core s) \<Longrightarrow> registry_ok (core (sched p b as s))"
  by (induction as arbitrary: s) (simp_all add: registry_ok_act[OF nt])

lemma respects_close_distinct:
  "respects_close cl l \<Longrightarrow> distinct (closed_pcs l) \<and> set (closed_pcs l) \<inter> set cl = {}"
proof (induction cl l rule: respects_close.induct)
  case (2 closed pc c r l)
  then show ?case by (cases c) auto
qed simp_all

lemma closed_once_act:
  assumes nt: "\<forall>h pc. \<not> throws b h (PcCall pc Close)" and ok: "registry_ok (core s)"
    and d: "distinct (closed_pcs (effects (core s)))"
  shows "distinct (closed_pcs (effects (core (act p b a s))))"
proof (cases a)
  case (Ev e)
  from act_event_step[OF nt ok, of p e] obtain new where
    "effects (core (act p b (Ev e) s)) = effects (core s) @ new"
    "respects_close (closed_pcs (effects (core s))) new"
    unfolding safe_step_def by blast
  with respects_close_distinct[OF this(2)] d Ev show ?thesis
    by (auto simp: closed_pcs_append)
next
  case (Resume i)
  from act_resume_step[OF ok, of i p b]
  have "closed_pcs (effects (core (act p b (Resume i) s))) = closed_pcs (effects (core s))"
    by (auto simp: handler_step_def plain_step_closed)
  with d Resume show ?thesis by simp
qed

lemma closed_once_sched:
  assumes nt: "\<forall>h pc. \<not> throws b h (PcCall pc Close)"
  shows "registry_ok (core s) \<Longrightarrow> distinct (closed_pcs (effects (core s))) \<Longrightarrow>
         distinct (closed_pcs (effects (core (sched p b as s))))"
  by (induction as arbitrary: s) (simp_all add: registry_ok_act[OF nt] closed_once_act[OF nt])

lemma added_step:
  assumes nt: "\<forall>h pc. \<not> throws b h (PcCall pc Close)" and ok: "registry_ok (core s)"
  shows "effects (core (act p b a s)) = effects (core s) @ added s (act p b a s) \<and>
         respects_close (closed_to s a) (added s (act p b a s))"
proof (cases a)
  case (Ev e)
  from act_event_step[OF nt ok, of p e] obtain new where
    "effects (core (act p b (Ev e) s)) = effects (core s) @ new"
    "respects_close (closed_pcs (effects (core s))) new"
    unfolding safe_step_def by blast
  with Ev show ?thesis by (simp add: added_def closed_to_def)
next
  case (Resume i)
  from act_resume_step[OF ok, of i p b] obtain new where
    n: "effects (core (act p b (Resume i) s)) = effects (core s) @ new" "closed_pcs new = []"
    "\<forall>pc\<in>set (called_pcs new).
       pc \<in> set (holder s (Resume i)) \<or> pc \<notin> set (closed_pcs (effects (core s)))"
    unfolding handler_step_def plain_step_def by blast
  have "respects_close (closed_to s (Resume i)) new"
    by (rule respects_close_plain[OF n(2)]) (use n(3) in \<open>auto simp: closed_to_def\<close>)
  with n(1) Resume show ?thesis by (simp add: added_def)
qed

text \<open>
  A handler that nothing interrupts goes through its suspended states to the result of
  the handler run in one piece, and on a mounted component the other events do what
  \<open>step\<close> does: the two descriptions of the component agree where both apply.
\<close>

lemma carry_on_add: "carry_on p b (n + k) x = carry_on p b k (carry_on p b n x)"
  by (induction n arbitrary: x) simp_all

lemma uninterrupted_handleOffer:
  "carry_on p b 3 (handleOffer_begin b u offer st) = (Done, handleOffer p b u offer st)"
  by (auto simp: handleOffer_def handleOffer_begin_def then_do_def call_api_def Let_def
      numeral_3_eq_3 split: option.splits)

lemma call_api_frame:
  "peerConnectionsRef (snd (call_api b e s)) = peerConnectionsRef s"
  "cleared (snd (call_api b e s)) = cleared s"
  "peerConnectionsRef (snd (channel_send b sig s)) = peerConnectionsRef s"
  "cleared (snd (channel_send b sig s)) = cleared s"
  by (simp_all add: call_api_def channel_send_def Let_def split: option.splits)

lemma startCall_from:
  "peerConnectionsRef s = m \<Longrightarrow> cleared s = c \<Longrightarrow>
   \<exists>n. carry_on p b n (startCall_next b (c + k) s) =
        (Done, snd (startCall_loop p b (drop k m) s))"
proof (induction "length m - k" arbitrary: k s)
  case 0
  then show ?case
    by (intro exI[of _ 0]) (simp add: startCall_next_def Let_def)
next
  case (Suc d)
  then have k: "k < length m" by simp
  obtain u pc where x: "m ! k = (u, pc)" by (cases "m ! k")
  with k have dr: "drop k m = (u, pc) # drop (Suc k) m"
    by (simp add: Cons_nth_drop_Suc[symmetric])
  let ?sdp = "created_sdp b (effects s)"
  obtain r1 s1 where c1: "call_api b (PcCall pc CreateOffer) s = (r1, s1)"
    by (cases "call_api b (PcCall pc CreateOffer) s") auto
  obtain r2 s2 where c2: "call_api b (PcCall pc (SetLocalDescription (SdpOffer ?sdp))) s1 = (r2, s2)"
    by (cases "call_api b (PcCall pc (SetLocalDescription (SdpOffer ?sdp))) s1") auto
  obtain r3 s3 where c3: "channel_send b (Offer (userId p) u ?sdp) s2 = (r3, s3)"
    by (cases "channel_send b (Offer (userId p) u ?sdp) s2") auto
  have f: "peerConnectionsRef s3 = m" "cleared s3 = c"
    using call_api_frame(1,2)[of b "PcCall pc CreateOffer" s]
      call_api_frame(1,2)[of b "PcCall pc (SetLocalDescription (SdpOffer ?sdp))" s1]
      call_api_frame(3,4)[of b "Offer (userId p) u ?sdp" s2] c1 c2 c3 Suc.prems
    by simp_all
  have nx: "startCall_next b (c + k) s =
      (case r1 of Thrown \<Rightarrow> (Done, s1)
       | Returned \<Rightarrow> (Start_offered (c + k + 1) u pc ?sdp, s1))"
    using k x c1 Suc.prems by (cases r1) (simp_all add: startCall_next_def Let_def)
  show ?case
  proof (cases r1)
    case Thrown
    with nx c1 dr show ?thesis
      by (intro exI[of _ 0]) (simp add: then_do_simps)
  next
    case r1: Returned
    show ?thesis
    proof (cases r2)
      case Thrown
      with nx c1 c2 r1 dr show ?thesis
        by (intro exI[of _ 1]) (simp add: then_do_simps)
    next
      case r2: Returned
      show ?thesis
      proof (cases r3)
        case Thrown
        with nx c1 c2 c3 r1 r2 dr show ?thesis
          by (intro exI[of _ 2]) (simp add: then_do_simps numeral_2_eq_2)
      next
        case r3: Returned
        have "d = length m - Suc k" using Suc.hyps(2) by simp
        from Suc.hyps(1)[OF this f] obtain n where
          n: "carry_on p b n (startCall_next b (c + Suc k) s3) =
              (Done, snd (startCall_loop p b (drop (Suc k) m) s3))"
          by blast
        have "carry_on p b (2 + n) (startCall_next b (c + k) s) =
            carry_on p b n (startCall_next b (c + Suc k) s3)"
          unfolding carry_on_add using nx c1 c2 c3 r1 r2 r3
          by (simp add: numeral_2_eq_2)
        with n c1 c2 c3 r1 r2 r3 dr show ?thesis
          by (intro exI[of _ "2 + n"]) (simp add: then_do_simps)
      qed
    qed
  qed
qed

lemma uninterrupted_startCall:
  "\<exists>n. carry_on p b n (startCall_next b 0 st) = (Done, startCall p b st)"
proof -
  have "startCall_next b 0 st = startCall_next b (cleared st + 0) st"
    by (simp add: startCall_next_def Let_def)
  with startCall_from[of st "peerConnectionsRef st" "cleared st" p b 0] show ?thesis
    by (simp add: startCall_def)
qed

lemma mounted_events_are_steps:
  assumes "lifecycle s = Live"
  shows "core (act p b (Ev MediaRejected) s) = step p b MediaRejected (core s)"
    and "core (act p b (Ev (Broadcast (Answer u v x))) s) = step p b (Broadcast (Answer u v x)) (core s)"
    and "core (act p b (Ev (Broadcast (IceCandidate u v x))) s) =
         step p b (Broadcast (IceCandidate u v x)) (core s)"
    and "core (act p b (Ev (Broadcast (CallEnded u v))) s) =
         step p b (Broadcast (CallEnded u v)) (core s)"
    and "core (act p b (Ev (OnTrack u k)) s) = step p b (OnTrack u k) (core s)"
    and "core (act p b (Ev (OnIceCandidate u c)) s) = step p b (OnIceCandidate u c) (core s)"
    and "core (act p b (Ev ToggleMute) s) = step p b ToggleMute (core s)"
    and "core (act p b (Ev ToggleVideo) s) = step p b ToggleVideo (core s)"
    and "core (act p b (Ev EndCall) s) = step p b EndCall (core s)"
  using assms by (simp_all add: settle_def)

lemma first_mount_is_step:
  "lifecycle s = Fresh \<Longrightarrow> core (act p b (Ev Mount) s) = step p b Mount (core s)"
  by (cases "run_effect p b (localStream (core s)) (core s)")
     (auto simp: run_effect_def mount_effect_def split: outcome.splits)

text \<open>
  C8 (as amended). Provided \<open>close()\<close> itself does not throw, in every state the component
  reaches, under every interleaving of its events with the continuations of its suspended
  handlers: no closed connection is in the registry, and \<open>close()\<close> has been called at most
  once on any connection; what an event's handler does up to its first \<open>await\<close> makes no
  call on a connection closed before that call; and what a suspended handler does when it
  goes on after an \<open>await\<close> makes no call on a connection closed before that call other
  than the connection the handler holds in its local variable. Not promised: that a
  connection never goes back to an earlier negotiation state (the source keeps no state
  machine), and that a handler suspended at an \<open>await\<close> makes no call on the connection it
  holds once that connection has been closed.
\<close>

theorem closed_connections_leave_the_registry:
  assumes "\<forall>h pc. \<not> throws b h (PcCall pc Close)"
  shows "set (closed_pcs (effects (core (sched p b as (initial_component p))))) \<inter>
           snd ` set (peerConnectionsRef (core (sched p b as (initial_component p)))) = {} \<and>
         distinct (closed_pcs (effects (core (sched p b as (initial_component p))))) \<and>
         effects (core (act p b a (sched p b as (initial_component p)))) =
           effects (core (sched p b as (initial_component p))) @
           added (sched p b as (initial_component p))
             (act p b a (sched p b as (initial_component p))) \<and>
         respects_close (closed_to (sched p b as (initial_component p)) a)
           (added (sched p b as (initial_component p))
              (act p b a (sched p b as (initial_component p))))"
proof -
  have i: "registry_ok (core (initial_component p))"
    "distinct (closed_pcs (effects (core (initial_component p))))"
    by (simp_all add: registry_ok_def initial_component_def initial_state_def)
  note ok = registry_ok_sched[OF assms i(1), of p as]
  from ok have "set (closed_pcs (effects (core (sched p b as (initial_component p))))) \<inter>
      snd ` set (peerConnectionsRef (core (sched p b as (initial_component p)))) = {}"
    by (auto simp: registry_ok_def)
  with closed_once_sched[OF assms i, of p as] added_step[OF assms ok, of p a]
  show ?thesis by simp
qed

lemmas task_defs =
  handleOffer_begin_def startCall_next_def run_effect_def settle_def keep_react_state_def
  initial_component_def added_def closed_to_def closed_rejects_def ended_under_handler_def

theorem closed_connections_leave_the_registry_witness:
  "(\<forall>h pc. \<not> throws closed_rejects h (PcCall pc Close)) \<and>
   closed_pcs (effects (core ended_call)) = [0] \<and>
   peerConnectionsRef (core ended_call) = [] \<and>
   added ended_call
     (act callee_props closed_rejects (Ev (Broadcast (Offer ''u2'' ''u1'' ''o''))) ended_call) = [] \<and>
   holder ended_call (Resume 0) = [0] \<and>
   closed_to ended_call (Resume 0) = [] \<and>
   added ended_call (act callee_props closed_rejects (Resume 0) ended_call) =
     [(PcCall 0 CreateAnswer, Thrown)] \<and>
   respects_close (closed_to ended_call (Resume 0))
     (added ended_call (act callee_props closed_rejects (Resume 0) ended_call))"
proof -
  have q: "\<forall>h pc. \<not> throws closed_rejects h (PcCall pc Close)"
    by (simp add: closed_rejects_def)
  have c: "closed_pcs (effects (core ended_call)) = [0] \<and>
      peerConnectionsRef (core ended_call) = [] \<and>
      added ended_call
        (act callee_props closed_rejects (Ev (Broadcast (Offer ''u2'' ''u1'' ''o''))) ended_call) = [] \<and>
      holder ended_call (Resume 0) = [0] \<and>
      closed_to ended_call (Resume 0) = [] \<and>
      added ended_call (act callee_props closed_rejects (Resume 0) ended_call) =
        [(PcCall 0 CreateAnswer, Thrown)]"
    by (simp add: ended_call_def task_defs model_defs)
  from closed_connections_leave_the_registry[OF q, of callee_props ended_under_handler "Resume 0"]
  have "respects_close (closed_to ended_call (Resume 0))
     (added ended_call (act callee_props closed_rejects (Resume 0) ended_call))"
    by (simp add: ended_call_def)
  with q c show ?thesis by simp
qed

text \<open>
  The claim as stated fails in both halves. The callee has answered \<open>u2\<close>'s offer
  (\<open>Negotiating\<close>), the same offer is delivered again, and the handler applies it, which
  puts the connection back into \<open>RemoteOfferReceived\<close>. And the handler of an offer that
  was suspended when the call was ended goes on to call \<open>createAnswer\<close> on the connection
  that \<open>cleanup\<close> has closed.
\<close>

theorem closed_connection_counterexample:
  "spec_states 0 New (effects (core offered_twice)) =
     [New, RemoteOfferReceived, RemoteOfferReceived, Negotiating,
      RemoteOfferReceived, RemoteOfferReceived, Negotiating] \<and>
   \<not> never_backward (New # spec_states 0 New (effects (core offered_twice))) \<and>
   closed_pcs (effects (core ended_call)) = [0] \<and>
   added ended_call closed_under_handler = [(PcCall 0 CreateAnswer, Thrown)] \<and>
   \<not> no_call_after_close (effects (core closed_under_handler))"
  by (simp add: offered_twice_def closed_under_handler_def ended_call_def task_defs model_defs
      no_call_after_close_def)

end
